theory Spec2Isabelle
  imports Complex_Main "HOL-Library.Multiset"
begin

section \<open>Numbers, errors and cities\<close>

text \<open>
  JavaScript numbers are IEEE doubles. A number is modelled as a real, or as one of the
  three special values \<open>Infinity\<close>, \<open>-Infinity\<close> and \<open>NaN\<close>. Overflow is modelled: an
  arithmetic result of magnitude \<open>2^1024 - 2^970\<close> or more (the least magnitude that
  rounds past the largest double) becomes an infinity. A result inside that range is
  kept exact, so rounding, and underflow with it, is left out. City coordinates are
  finite numbers. City indices are integers: the nearest-city scans start from the
  index -1.
\<close>

datatype jsnum = Num real | Infinity | NegInfinity | NaN

definition overflowThreshold :: real where
  "overflowThreshold = 2 ^ 1024 - 2 ^ 970"

definition toDouble :: "real \<Rightarrow> jsnum" where
  "toDouble r =
     (if overflowThreshold \<le> r then Infinity
      else if r \<le> - overflowThreshold then NegInfinity
      else Num r)"

text \<open>The operators \<open>+\<close>, unary \<open>-\<close>, binary \<open>-\<close>, \<open>*\<close>, \<open>Math.sqrt\<close>, \<open><\<close> and \<open><=\<close>.\<close>

fun jsAdd :: "jsnum \<Rightarrow> jsnum \<Rightarrow> jsnum" where
  "jsAdd NaN b = NaN"
| "jsAdd a NaN = NaN"
| "jsAdd (Num a) (Num b) = toDouble (a + b)"
| "jsAdd Infinity NegInfinity = NaN"
| "jsAdd NegInfinity Infinity = NaN"
| "jsAdd Infinity b = Infinity"
| "jsAdd a Infinity = Infinity"
| "jsAdd NegInfinity b = NegInfinity"
| "jsAdd a NegInfinity = NegInfinity"

fun jsNeg :: "jsnum \<Rightarrow> jsnum" where
  "jsNeg (Num a) = Num (- a)"
| "jsNeg Infinity = NegInfinity"
| "jsNeg NegInfinity = Infinity"
| "jsNeg NaN = NaN"

definition jsSub :: "jsnum \<Rightarrow> jsnum \<Rightarrow> jsnum" where
  "jsSub a b = jsAdd a (jsNeg b)"

text \<open>The sign of a number that is not \<open>NaN\<close>, for the products with an infinity.\<close>

fun jsSign :: "jsnum \<Rightarrow> int" where
  "jsSign (Num a) = (if 0 < a then 1 else if a < 0 then - 1 else 0)"
| "jsSign Infinity = 1"
| "jsSign NegInfinity = - 1"
| "jsSign NaN = 0"

fun jsMul :: "jsnum \<Rightarrow> jsnum \<Rightarrow> jsnum" where
  "jsMul NaN b = NaN"
| "jsMul a NaN = NaN"
| "jsMul (Num a) (Num b) = toDouble (a * b)"
| "jsMul a b =
     (if jsSign a * jsSign b = 0 then NaN
      else if 0 < jsSign a * jsSign b then Infinity
      else NegInfinity)"

fun jsSqrt :: "jsnum \<Rightarrow> jsnum" where
  "jsSqrt (Num a) = (if a < 0 then NaN else Num (sqrt a))"
| "jsSqrt Infinity = Infinity"
| "jsSqrt NegInfinity = NaN"
| "jsSqrt NaN = NaN"

fun jsLess :: "jsnum \<Rightarrow> jsnum \<Rightarrow> bool" where
  "jsLess NaN b = False"
| "jsLess a NaN = False"
| "jsLess (Num a) (Num b) = (a < b)"
| "jsLess Infinity b = False"
| "jsLess a NegInfinity = False"
| "jsLess a Infinity = True"
| "jsLess NegInfinity b = True"

fun jsLeq :: "jsnum \<Rightarrow> jsnum \<Rightarrow> bool" where
  "jsLeq NaN b = False"
| "jsLeq a NaN = False"
| "jsLeq (Num a) (Num b) = (a \<le> b)"
| "jsLeq a Infinity = True"
| "jsLeq NegInfinity b = True"
| "jsLeq Infinity b = False"
| "jsLeq a NegInfinity = False"

text \<open>
  What the code throws: a \<open>TypeError\<close> when a property of \<open>undefined\<close> or \<open>null\<close> is read,
  and the \<open>Error\<close> the exhaustive searches raise above their size limit.
\<close>

datatype error = TypeError | SizeLimitExceeded

record City =
  cid :: nat
  cx :: real
  cy :: real

definition EPSILON :: real where
  "EPSILON = 1 / 10 ^ 9"

section \<open>Distances (src/algorithms/tsp-solver.js)\<close>

definition calculateDistance :: "City \<Rightarrow> City \<Rightarrow> jsnum" where
  "calculateDistance cityA cityB =
     (let dx = jsSub (Num (cx cityB)) (Num (cx cityA));
          dy = jsSub (Num (cy cityB)) (Num (cy cityA))
      in jsSqrt (jsAdd (jsMul dx dx) (jsMul dy dy)))"

text \<open>\<open>cities[i]\<close>: \<open>None\<close> is \<open>undefined\<close>, the value of an index outside the array.\<close>

definition cityAt :: "City list \<Rightarrow> int \<Rightarrow> City option" where
  "cityAt cities i =
     (if 0 \<le> i \<and> i < int (length cities) then Some (cities ! nat i) else None)"

text \<open>
  \<open>calculateDistance(cities[a], cities[b])\<close>: reading \<open>.x\<close> of \<open>undefined\<close> throws. The
  step generators and the live runner spell the same expression out inline
  (\<open>dx = to.x - from.x\<close>, \<open>dy = to.y - from.y\<close>, \<open>Math.sqrt(dx * dx + dy * dy)\<close>).
\<close>

definition distanceBetween :: "City list \<Rightarrow> int \<Rightarrow> int \<Rightarrow> error + jsnum" where
  "distanceBetween cities a b =
     (case cityAt cities a of
        None \<Rightarrow> Inl TypeError
      | Some cityA \<Rightarrow>
          (case cityAt cities b of
             None \<Rightarrow> Inl TypeError
           | Some cityB \<Rightarrow> Inr (calculateDistance cityA cityB)))"

text \<open>The loop \<open>for (i = 0; i < route.length - 1; i++) totalDistance += ...\<close>.\<close>

fun sumEdges :: "City list \<Rightarrow> int list \<Rightarrow> jsnum \<Rightarrow> error + jsnum" where
  "sumEdges cities (a # b # rest) totalDistance =
     (case distanceBetween cities a b of
        Inl e \<Rightarrow> Inl e
      | Inr d \<Rightarrow> sumEdges cities (b # rest) (jsAdd totalDistance d))"
| "sumEdges cities [a] totalDistance = Inr totalDistance"
| "sumEdges cities [] totalDistance = Inr totalDistance"

text \<open>The route argument may be \<open>null\<close> (\<open>None\<close>).\<close>

definition calculateTotalDistance :: "int list option \<Rightarrow> City list \<Rightarrow> error + jsnum" where
  "calculateTotalDistance route cities =
     (case route of
        None \<Rightarrow> Inr (Num 0)
      | Some r \<Rightarrow>
          if length r < 2 then Inr (Num 0)
          else
            (let isClosed = (hd r = last r) in
             case sumEdges cities r (Num 0) of
               Inl e \<Rightarrow> Inl e
             | Inr totalDistance \<Rightarrow>
                 if \<not> isClosed then
                   (case distanceBetween cities (last r) (hd r) of
                      Inl e \<Rightarrow> Inl e
                    | Inr d \<Rightarrow> Inr (jsAdd totalDistance d))
                 else Inr totalDistance))"

text \<open>
  \<open>[...r, r[0]]\<close>. On an empty \<open>r\<close> JavaScript builds the one-element array
  \<open>[undefined]\<close>, which an integer list cannot hold; the model returns the empty list
  there. Both have fewer than two elements, \<open>calculateTotalDistance\<close> returns 0 on both,
  and the live runner's \<open>calculatePathDistance\<close> throws on both.
\<close>

definition closeRoute :: "int list \<Rightarrow> int list" where
  "closeRoute r = (case r of [] \<Rightarrow> [] | r0 # _ \<Rightarrow> r @ [r0])"

section \<open>2-opt (src/algorithms/tsp-solver.js)\<close>

definition perform2OptSwap :: "int list \<Rightarrow> nat \<Rightarrow> nat \<Rightarrow> int list" where
  "perform2OptSwap route i k =
     (let start = take i route;
          middle = rev (drop i (take (k + 1) route));
          end = drop (k + 1) route
      in start @ middle @ end)"

record TwoOptResult =
  route :: "int list"
  routeDistance :: jsnum
  iterations :: nat

text \<open>
  The inner loop over \<open>k\<close> and the outer loop over \<open>i\<close> of one pass. A pass ends at the
  first accepted swap (both loops \<open>break\<close>) with the new route and its distance, or runs
  through with \<open>None\<close>.
\<close>

fun twoOptInner ::
  "City list \<Rightarrow> int list \<Rightarrow> jsnum \<Rightarrow> nat \<Rightarrow> nat list \<Rightarrow> error + (int list \<times> jsnum) option" where
  "twoOptInner cities r bestDistance i [] = Inr None"
| "twoOptInner cities r bestDistance i (k # ks) =
     (let newRoute = perform2OptSwap r i k in
      case calculateTotalDistance (Some newRoute) cities of
        Inl e \<Rightarrow> Inl e
      | Inr newDistance \<Rightarrow>
          if jsLess newDistance (jsSub bestDistance (Num EPSILON))
          then Inr (Some (newRoute, newDistance))
          else twoOptInner cities r bestDistance i ks)"

fun twoOptPass ::
  "City list \<Rightarrow> int list \<Rightarrow> jsnum \<Rightarrow> nat \<Rightarrow> nat list \<Rightarrow> error + (int list \<times> jsnum) option" where
  "twoOptPass cities r bestDistance n [] = Inr None"
| "twoOptPass cities r bestDistance n (i # is) =
     (case twoOptInner cities r bestDistance i [i + 1 ..< n] of
        Inl e \<Rightarrow> Inl e
      | Inr (Some accepted) \<Rightarrow> Inr (Some accepted)
      | Inr None \<Rightarrow> twoOptPass cities r bestDistance n is)"

text \<open>
  \<open>while (improved)\<close>: the loop runs another pass after every accepted swap. Nothing in
  its text bounds the number of passes, so it is a partial function: \<open>None\<close> is a run
  that never returns.
\<close>

partial_function (option) twoOptWhile ::
  "City list \<Rightarrow> nat \<Rightarrow> int list \<Rightarrow> jsnum \<Rightarrow> nat \<Rightarrow> (error + int list \<times> jsnum \<times> nat) option" where
  "twoOptWhile cities n r bestDistance iters =
     (case twoOptPass cities r bestDistance n [1 ..< n - 1] of
        Inl e \<Rightarrow> Some (Inl e)
      | Inr None \<Rightarrow> Some (Inr (r, bestDistance, iters))
      | Inr (Some (newRoute, newDistance)) \<Rightarrow>
          twoOptWhile cities n newRoute newDistance (iters + 1))"

definition twoOpt :: "City list option \<Rightarrow> int list option \<Rightarrow> (error + TwoOptResult) option" where
  "twoOpt cities initialRoute =
     (case cities of
        None \<Rightarrow> Some (Inr \<lparr>route = [], routeDistance = Num 0, iterations = 0\<rparr>)
      | Some cs \<Rightarrow>
          if length cs < 2 then Some (Inr \<lparr>route = [], routeDistance = Num 0, iterations = 0\<rparr>)
          else
            (case initialRoute of
               None \<Rightarrow> Some (Inr \<lparr>route = [], routeDistance = Num 0, iterations = 0\<rparr>)
             | Some r0 \<Rightarrow>
                 if length r0 < 2
                 then Some (Inr \<lparr>route = [], routeDistance = Num 0, iterations = 0\<rparr>)
                 else
                   (let baseRoute =
                          (if length r0 > 1 \<and> hd r0 = last r0 then butlast r0 else r0);
                        n = length baseRoute
                    in if n < 3 then
                         (let closedRoute = closeRoute baseRoute in
                          case calculateTotalDistance (Some closedRoute) cs of
                            Inl e \<Rightarrow> Some (Inl e)
                          | Inr d \<Rightarrow>
                              Some (Inr \<lparr>route = closedRoute, routeDistance = d,
                                         iterations = 0\<rparr>))
                       else
                         (case calculateTotalDistance (Some baseRoute) cs of
                            Inl e \<Rightarrow> Some (Inl e)
                          | Inr bestDistance \<Rightarrow>
                              (case twoOptWhile cs n baseRoute bestDistance 0 of
                                 None \<Rightarrow> None
                               | Some (Inl e) \<Rightarrow> Some (Inl e)
                               | Some (Inr (r, d, iters)) \<Rightarrow>
                                   Some (Inr \<lparr>route = closeRoute r, routeDistance = d,
                                              iterations = iters\<rparr>))))))"

section \<open>Permutations\<close>

text \<open>
  The generator \<open>generatePermutations\<close> (the same text in tsp-solver.js,
  bruteForceStepGenerator.js and the live runner), as the list of what it yields, in
  order.
\<close>

function generatePermutations :: "'a list \<Rightarrow> 'a list list" where
  "generatePermutations array =
     (if length array \<le> 1 then [array]
      else concat (map (\<lambda>i. map (\<lambda>perm. array ! i # perm)
                                (generatePermutations (take i array @ drop (i + 1) array)))
                       [0 ..< length array]))"
  by pat_completeness auto
termination
  by (relation "measure length") auto

declare generatePermutations.simps [simp del]

section \<open>Nearest neighbour (src/algorithms/tsp-solver.js)\<close>

record TourResult =
  path :: "int list"
  distance :: jsnum

text \<open>
  The scan \<open>for (j = 0; j < cities.length; j++)\<close> over the unvisited cities; the pair is
  \<open>(nearestCity, nearestDistance)\<close>. \<open>visited\<close> is the boolean array.
\<close>

fun nearestScan ::
  "City list \<Rightarrow> bool list \<Rightarrow> int \<Rightarrow> nat list \<Rightarrow> int \<times> jsnum \<Rightarrow> error + int \<times> jsnum" where
  "nearestScan cities visited currentCity [] nearest = Inr nearest"
| "nearestScan cities visited currentCity (j # js) (nearestCity, nearestDistance) =
     (if \<not> visited ! j then
        (case distanceBetween cities currentCity (int j) of
           Inl e \<Rightarrow> Inl e
         | Inr d \<Rightarrow>
             nearestScan cities visited currentCity js
               (if jsLess d nearestDistance then (int j, d)
                else (nearestCity, nearestDistance)))
      else nearestScan cities visited currentCity js (nearestCity, nearestDistance))"

text \<open>
  \<open>visited[nearestCity] = true\<close>. With the index -1 the assignment sets a property named
  "-1" and leaves the array elements as they are.
\<close>

definition markVisited :: "bool list \<Rightarrow> int \<Rightarrow> bool list" where
  "markVisited visited i = (if 0 \<le> i then visited[nat i := True] else visited)"

text \<open>
  The loop \<open>for (i = 1; i < cities.length; i++)\<close>, by the number of iterations left; the
  state is \<open>(visited, path, currentCity)\<close>.
\<close>

fun greedyLoop ::
  "City list \<Rightarrow> nat \<Rightarrow> bool list \<times> int list \<times> int \<Rightarrow> error + bool list \<times> int list \<times> int" where
  "greedyLoop cities 0 st = Inr st"
| "greedyLoop cities (Suc m) (visited, p, currentCity) =
     (case nearestScan cities visited currentCity [0 ..< length cities] (- 1, Infinity) of
        Inl e \<Rightarrow> Inl e
      | Inr (nearestCity, nearestDistance) \<Rightarrow>
          greedyLoop cities m (markVisited visited nearestCity, p @ [nearestCity], nearestCity))"

definition greedyTSP :: "City list option \<Rightarrow> error + TourResult" where
  "greedyTSP cities =
     (case cities of
        None \<Rightarrow> Inr \<lparr>path = [], distance = Num 0\<rparr>
      | Some cs \<Rightarrow>
          if length cs < 2 then Inr \<lparr>path = [], distance = Num 0\<rparr>
          else
            (case greedyLoop cs (length cs - 1)
                    ((replicate (length cs) False)[0 := True], [0], 0) of
               Inl e \<Rightarrow> Inl e
             | Inr (visited, p, currentCity) \<Rightarrow>
                 (case calculateTotalDistance (Some (p @ [0])) cs of
                    Inl e \<Rightarrow> Inl e
                  | Inr d \<Rightarrow> Inr \<lparr>path = p @ [0], distance = d\<rparr>)))"

section \<open>Exhaustive search (src/algorithms/tsp-solver.js)\<close>

text \<open>The \<open>for ... of\<close> loop; the pair is \<open>(minDistance, optimalPath)\<close>.\<close>

fun bruteForceLoop ::
  "City list \<Rightarrow> int list list \<Rightarrow> jsnum \<times> int list \<Rightarrow> error + jsnum \<times> int list" where
  "bruteForceLoop cities [] best = Inr best"
| "bruteForceLoop cities (perm # perms) (minDistance, optimalPath) =
     (let p = closeRoute perm in
      case calculateTotalDistance (Some p) cities of
        Inl e \<Rightarrow> Inl e
      | Inr d \<Rightarrow>
          bruteForceLoop cities perms
            (if jsLess d (jsSub minDistance (Num EPSILON)) then (d, p)
             else (minDistance, optimalPath)))"

definition bruteForceTSP :: "City list option \<Rightarrow> error + TourResult" where
  "bruteForceTSP cities =
     (case cities of
        None \<Rightarrow> Inr \<lparr>path = [], distance = Num 0\<rparr>
      | Some cs \<Rightarrow>
          if length cs < 2 then Inr \<lparr>path = [], distance = Num 0\<rparr>
          else if length cs > 10 then Inl SizeLimitExceeded
          else
            (case bruteForceLoop cs (generatePermutations (map int [0 ..< length cs]))
                    (Infinity, []) of
               Inl e \<Rightarrow> Inl e
             | Inr (minDistance, optimalPath) \<Rightarrow>
                 Inr \<lparr>path = optimalPath, distance = minDistance\<rparr>))"

section \<open>Trace steps\<close>

text \<open>
  A step of a trace is the object literal the generators push. The fields that carry
  data the algorithms compute are kept: \<open>type\<close>, \<open>fromCity\<close>, \<open>toCity\<close>, \<open>path\<close> and
  \<open>distance\<close>. The \<open>metadata\<close> and \<open>explanation\<close> fields hold display strings
  (\<open>toFixed\<close>, \<open>toLocaleString\<close>, template literals) that nothing reads back; they are left
  out. A field that the literal does not set is \<open>None\<close>. A missing or empty \<open>type\<close> is the
  empty string.
\<close>

record Step =
  stype :: string
  fromCity :: "int option"
  toCity :: "int option"
  spath :: "int list option"
  sdistance :: "jsnum option"

definition plainStep :: "string \<Rightarrow> Step" where
  "plainStep t = \<lparr>stype = t, fromCity = None, toCity = None, spath = None, sdistance = None\<rparr>"


definition finalResultStep :: "int list \<Rightarrow> jsnum \<Rightarrow> Step" where
  "finalResultStep p d =
     \<lparr>stype = ''final_result'', fromCity = None, toCity = None, spath = Some p,
      sdistance = Some d\<rparr>"

section \<open>Greedy step generator (src/modules/greedyStepGenerator.js)\<close>







section \<open>Brute-force step generator (src/modules/bruteForceStepGenerator.js)\<close>

definition factorial :: "nat \<Rightarrow> nat" where
  "factorial n = fold (\<lambda>i result. result * i) [2 ..< n + 1] 1"

text \<open>
  The \<open>for ... of\<close> loop. The state is \<open>(bestDistance, bestPath, permutationCount,
  sampledCount, steps)\<close>; \<open>bestPath\<close> starts as \<open>null\<close>. The test
  \<open>permutationCount % samplingRate === 0\<close> is false for the sampling rate 0, where the
  remainder is \<open>NaN\<close>.
\<close>

fun bruteForceStepsLoop ::
  "City list \<Rightarrow> nat \<Rightarrow> int list list \<Rightarrow> jsnum \<times> int list option \<times> nat \<times> nat \<times> Step list \<Rightarrow>
   error + jsnum \<times> int list option \<times> nat \<times> nat \<times> Step list" where
  "bruteForceStepsLoop cities samplingRate [] st = Inr st"
| "bruteForceStepsLoop cities samplingRate (perm # perms)
       (bestDistance, bestPath, permutationCount, sampledCount, acc) =
     (let permutationCount = permutationCount + 1 in
      if samplingRate \<noteq> 0 \<and> permutationCount mod samplingRate = 0 then
        (case calculateTotalDistance (Some perm) cities of
           Inl e \<Rightarrow> Inl e
         | Inr d \<Rightarrow>
             bruteForceStepsLoop cities samplingRate perms
               (if jsLess d (jsSub bestDistance (Num EPSILON))
                then (d, Some (closeRoute perm), permutationCount, sampledCount + 1,
                      acc @ [plainStep ''best_found'', plainStep ''permutation_check''])
                else (bestDistance, bestPath, permutationCount, sampledCount + 1,
                      acc @ [plainStep ''permutation_check''])))
      else bruteForceStepsLoop cities samplingRate perms
             (bestDistance, bestPath, permutationCount, sampledCount, acc))"

text \<open>After the loop \<open>bestPath.slice(0, -1)\<close> throws when \<open>bestPath\<close> is still \<open>null\<close>.\<close>

definition generateBruteForceSteps :: "City list \<Rightarrow> nat \<Rightarrow> error + Step list" where
  "generateBruteForceSteps cities samplingRate =
     (case bruteForceStepsLoop cities samplingRate
             (generatePermutations (map int [0 ..< length cities]))
             (Infinity, None, 0, 0, [plainStep ''metadata_update'']) of
        Inl e \<Rightarrow> Inl e
      | Inr (bestDistance, bestPath, permutationCount, sampledCount, acc) \<Rightarrow>
          (case bestPath of
             None \<Rightarrow> Inl TypeError
           | Some bp \<Rightarrow>
               (let finalPath = (if bp \<noteq> [] \<and> last bp \<noteq> hd bp then bp @ [hd bp] else bp)
                in Inr (acc @ [plainStep ''metadata_update'',
                               finalResultStep finalPath bestDistance]))))"

section \<open>Live exhaustive search (src/modules/ui-manager.js, runBruteForceLive)\<close>

text \<open>\<open>calculatePathDistance\<close> adds the edge from the last entry to the first always.\<close>

definition calculatePathDistance :: "int list \<Rightarrow> City list \<Rightarrow> error + jsnum" where
  "calculatePathDistance p cities =
     (case sumEdges cities p (Num 0) of
        Inl e \<Rightarrow> Inl e
      | Inr d \<Rightarrow>
          (case p of
             [] \<Rightarrow> Inl TypeError
           | _ \<Rightarrow>
               (case distanceBetween cities (last p) (hd p) of
                  Inl e \<Rightarrow> Inl e
                | Inr closing \<Rightarrow> Inr (jsAdd d closing))))"

record LiveResult =
  livePath :: "int list option"
  liveDistance :: jsnum
  permutationsChecked :: nat
  totalPermutations :: nat

text \<open>
  The runner suspends after every permutation, and the controller may set or clear the
  token meanwhile. All the runner sees of that is the value of
  \<open>state.bruteForceController?.isCancelled\<close> at its check before each permutation:
  \<open>isCancelled k\<close> is the token once \<open>k\<close> permutations have been processed. Rendering and
  the progress callback are external collaborators and are not modelled. The state of the
  loop is \<open>(bestDistance, bestRoute, permutationsChecked)\<close>.
\<close>

fun liveLoop ::
  "City list \<Rightarrow> (nat \<Rightarrow> bool) \<Rightarrow> int list list \<Rightarrow> jsnum \<times> int list option \<times> nat \<Rightarrow>
   error + jsnum \<times> int list option \<times> nat" where
  "liveLoop cities isCancelled [] st = Inr st"
| "liveLoop cities isCancelled (perm # perms) (bestDistance, bestRoute, checked) =
     (if isCancelled checked then Inr (bestDistance, bestRoute, checked)
      else
        (let fullPath = closeRoute perm in
         case calculatePathDistance fullPath cities of
           Inl e \<Rightarrow> Inl e
         | Inr d \<Rightarrow>
             liveLoop cities isCancelled perms
               (if jsLess d bestDistance then (d, Some fullPath, checked + 1)
                else (bestDistance, bestRoute, checked + 1))))"

definition runBruteForceLive :: "City list \<Rightarrow> (nat \<Rightarrow> bool) \<Rightarrow> error + LiveResult" where
  "runBruteForceLive cities isCancelled =
     (let n = length cities in
      if n > 9 then Inl SizeLimitExceeded
      else
        (let totalPerms = factorial n in
         case liveLoop cities isCancelled (generatePermutations (map int [0 ..< n]))
                (Infinity, None, 0) of
           Inl e \<Rightarrow> Inl e
         | Inr (bestDistance, bestRoute, checked) \<Rightarrow>
             Inr \<lparr>livePath = bestRoute, liveDistance = bestDistance,
                  permutationsChecked = checked, totalPermutations = totalPerms\<rparr>))"

text \<open>
  The token of a controller whose \<open>cancel()\<close> is called once, while the runner is
  suspended after its \<open>m\<close>-th permutation (before the run, for \<open>m = 0\<close>), and never
  reset.
\<close>

definition cancelAfter :: "nat \<Rightarrow> nat \<Rightarrow> bool" where
  "cancelAfter m k = (m \<le> k)"

section \<open>StepController (src/modules/ui-manager.js, class StepController)\<close>

text \<open>
  The controller object. \<open>playbackInterval\<close> is the timer handle: \<open>True\<close> while an interval
  is installed, \<open>False\<close> for \<open>null\<close>. The three observer callbacks are external
  collaborators that read the state and do not write it; they are not modelled.
\<close>

record StepController =
  steps :: "Step list"
  currentStepIndex :: int
  isPlaying :: bool
  playbackSpeed :: int
  playbackInterval :: bool
  algorithmName :: string
  totalCities :: nat
  userRoute :: "int list"

definition newStepController :: StepController where
  "newStepController =
     \<lparr>steps = [], currentStepIndex = -1, isPlaying = False, playbackSpeed = 500,
      playbackInterval = False, algorithmName = [], totalCities = 0, userRoute = []\<rparr>"

definition pause :: "StepController \<Rightarrow> StepController" where
  "pause c =
     (if \<not> isPlaying c then c
      else c\<lparr>isPlaying := False, playbackInterval := False\<rparr>)"

definition clear :: "StepController \<Rightarrow> StepController" where
  "clear c =
     (pause c)\<lparr>steps := [], currentStepIndex := -1, algorithmName := [],
               totalCities := 0, userRoute := []\<rparr>"

definition initialize :: "string \<Rightarrow> nat \<Rightarrow> int list \<Rightarrow> StepController \<Rightarrow> StepController" where
  "initialize name cityCount ur c =
     (clear c)\<lparr>algorithmName := name, totalCities := cityCount, userRoute := ur,
               currentStepIndex := -1\<rparr>"

definition addStep :: "Step \<Rightarrow> StepController \<Rightarrow> StepController" where
  "addStep step c = (if stype step = [] then c else c\<lparr>steps := steps c @ [step]\<rparr>)"

definition addSteps :: "Step list \<Rightarrow> StepController \<Rightarrow> StepController" where
  "addSteps stepsArray c = foldl (\<lambda>c' step. addStep step c') c stepsArray"

definition getCurrentStep :: "StepController \<Rightarrow> Step option" where
  "getCurrentStep c =
     (if currentStepIndex c < 0 \<or> currentStepIndex c \<ge> int (length (steps c)) then None
      else Some (steps c ! nat (currentStepIndex c)))"

definition isTerminal :: "Step \<Rightarrow> bool" where
  "isTerminal s = (stype s = ''final_result'' \<or> stype s = ''final'')"

text \<open>\<open>next()\<close>: the returned boolean and the controller after the call.\<close>

definition nextStep :: "StepController \<Rightarrow> bool \<times> StepController" where
  "nextStep c =
     (if currentStepIndex c < int (length (steps c)) - 1 then
        (let c1 = c\<lparr>currentStepIndex := currentStepIndex c + 1\<rparr> in
         (True,
          case getCurrentStep c1 of
            None \<Rightarrow> c1
          | Some currentStep \<Rightarrow>
              if isTerminal currentStep \<and> isPlaying c1 then pause c1 else c1))
      else (False, c))"

definition previous :: "StepController \<Rightarrow> bool \<times> StepController" where
  "previous c =
     (if currentStepIndex c > -1 then (True, c\<lparr>currentStepIndex := currentStepIndex c - 1\<rparr>)
      else (False, c))"

definition play :: "StepController \<Rightarrow> StepController" where
  "play c =
     (if isPlaying c then c
      else
        (let c1 = (if currentStepIndex c \<ge> int (length (steps c)) - 1
                   then c\<lparr>currentStepIndex := -1\<rparr> else c)
         in c1\<lparr>isPlaying := True, playbackInterval := True\<rparr>))"

text \<open>
  One firing of the callback given to \<open>setInterval\<close> in \<open>play\<close>. A cleared interval does
  not fire, so the tick does nothing when no timer is installed.
\<close>

definition tick :: "StepController \<Rightarrow> StepController" where
  "tick c =
     (if \<not> playbackInterval c then c
      else (case nextStep c of (advanced, c1) \<Rightarrow> if \<not> advanced then pause c1 else c1))"

definition replay :: "StepController \<Rightarrow> StepController" where
  "replay c = play ((pause c)\<lparr>currentStepIndex := -1\<rparr>)"

definition reset :: "StepController \<Rightarrow> StepController" where
  "reset c = (pause c)\<lparr>currentStepIndex := -1\<rparr>"

definition setPlaybackSpeed :: "int \<Rightarrow> StepController \<Rightarrow> StepController" where
  "setPlaybackSpeed ms c =
     (let c1 = c\<lparr>playbackSpeed := max 100 ms\<rparr>
      in if isPlaying c1 then play (pause c1) else c1)"

text \<open>The operations a caller (or the timer) can apply, and a run of them in order.\<close>

datatype operation =
    Initialize string nat "int list"
  | AddStep Step
  | AddSteps "Step list"
  | Next
  | Previous
  | Play
  | Tick
  | Pause
  | Replay
  | Reset
  | Clear
  | SetPlaybackSpeed int

fun applyOperation :: "StepController \<Rightarrow> operation \<Rightarrow> StepController" where
  "applyOperation c (Initialize name cityCount ur) = initialize name cityCount ur c"
| "applyOperation c (AddStep s) = addStep s c"
| "applyOperation c (AddSteps ss) = addSteps ss c"
| "applyOperation c Next = snd (nextStep c)"
| "applyOperation c Previous = snd (previous c)"
| "applyOperation c Play = play c"
| "applyOperation c Tick = tick c"
| "applyOperation c Pause = pause c"
| "applyOperation c Replay = replay c"
| "applyOperation c Reset = reset c"
| "applyOperation c Clear = clear c"
| "applyOperation c (SetPlaybackSpeed ms) = setPlaybackSpeed ms c"

definition runOperations :: "operation list \<Rightarrow> StepController" where
  "runOperations ops = foldl applyOperation newStepController ops"

definition indexInRange :: "StepController \<Rightarrow> bool" where
  "indexInRange c =
     (-1 \<le> currentStepIndex c \<and> currentStepIndex c \<le> int (length (steps c)) - 1)"

section \<open>Notions used to state the properties\<close>

text \<open>A route over a city list: every entry is an index of the list.\<close>

definition inRange :: "City list \<Rightarrow> int list \<Rightarrow> bool" where
  "inRange cities r = (\<forall>i \<in> set r. 0 \<le> i \<and> i < int (length cities))"

text \<open>
  The exact Euclidean distance of two cities, of two cities given by valid indices, the
  exact length of the open path along a list of indices, and the exact length of the
  closed tour through them.
\<close>

definition euclid :: "City \<Rightarrow> City \<Rightarrow> real" where
  "euclid cityA cityB = sqrt ((cx cityB - cx cityA)\<^sup>2 + (cy cityB - cy cityA)\<^sup>2)"

definition cityDist :: "City list \<Rightarrow> int \<Rightarrow> int \<Rightarrow> real" where
  "cityDist cities a b = euclid (cities ! nat a) (cities ! nat b)"

fun pathLength :: "City list \<Rightarrow> int list \<Rightarrow> real" where
  "pathLength cities (a # b # rest) = cityDist cities a b + pathLength cities (b # rest)"
| "pathLength cities [a] = 0"
| "pathLength cities [] = 0"

definition tourLength :: "City list \<Rightarrow> int list \<Rightarrow> real" where
  "tourLength cities r = pathLength cities r + cityDist cities (last r) (hd r)"

text \<open>The city indices \<open>0, ..., n - 1\<close>, and the open routes that visit each of them once.\<close>

definition allCities :: "nat \<Rightarrow> int list" where
  "allCities n = map int [0 ..< n]"

definition isOpenRoute :: "nat \<Rightarrow> int list \<Rightarrow> bool" where
  "isOpenRoute n r = (mset r = mset (allCities n))"

text \<open>
  No distance between two cities of the list overflows: \<open>calculateDistance\<close> is finite
  on every pair.
\<close>

definition finiteDistances :: "City list \<Rightarrow> bool" where
  "finiteDistances cities =
     (\<forall>a \<in> set cities. \<forall>b \<in> set cities. calculateDistance a b \<noteq> Infinity)"

text \<open>
  The values a distance or a sum of distances can take: \<open>Infinity\<close>, or a non-negative
  real below the overflow threshold.
\<close>

definition distanceValue :: "jsnum \<Rightarrow> bool" where
  "distanceValue v =
     (case v of Num d \<Rightarrow> 0 \<le> d \<and> d < overflowThreshold | Infinity \<Rightarrow> True | _ \<Rightarrow> False)"




definition lineCities :: "real list \<Rightarrow> City list" where
  "lineCities xs = map (\<lambda>(i, v). \<lparr>cid = i, cx = v, cy = 0\<rparr>) (enumerate 0 xs)"

section \<open>Properties of the playback controller\<close>

lemma pause_fields [simp]:
  "steps (pause c) = steps c" "currentStepIndex (pause c) = currentStepIndex c"
  by (simp_all add: pause_def)

lemma isPlaying_pause [simp]: "\<not> isPlaying (pause c)"
  by (simp add: pause_def)

lemma indexInRange_pause: "indexInRange c \<Longrightarrow> indexInRange (pause c)"
  by (simp add: indexInRange_def)

lemma indexInRange_clear: "indexInRange (clear c)"
  by (simp add: indexInRange_def clear_def)

lemma indexInRange_initialize: "indexInRange (initialize name cityCount ur c)"
  by (simp add: indexInRange_def initialize_def clear_def)

lemma indexInRange_addStep: "indexInRange c \<Longrightarrow> indexInRange (addStep s c)"
  by (auto simp: indexInRange_def addStep_def)

lemma indexInRange_addSteps: "indexInRange c \<Longrightarrow> indexInRange (addSteps ss c)"
  unfolding addSteps_def
  by (induction ss arbitrary: c) (simp_all add: indexInRange_addStep)

lemma indexInRange_nextStep: "indexInRange c \<Longrightarrow> indexInRange (snd (nextStep c))"
  by (auto simp: indexInRange_def nextStep_def Let_def split: option.splits)

lemma indexInRange_previous: "indexInRange c \<Longrightarrow> indexInRange (snd (previous c))"
  by (auto simp: indexInRange_def previous_def)

lemma indexInRange_play: "indexInRange c \<Longrightarrow> indexInRange (play c)"
  by (auto simp: indexInRange_def play_def Let_def)

lemma indexInRange_tick: "indexInRange c \<Longrightarrow> indexInRange (tick c)"
proof -
  assume inv: "indexInRange c"
  obtain advanced c1 where n: "nextStep c = (advanced, c1)"
    by (cases "nextStep c")
  from indexInRange_nextStep [OF inv] n have "indexInRange c1" by simp
  with inv n show ?thesis
    by (simp add: tick_def indexInRange_pause)
qed

lemma indexInRange_reset: "indexInRange (reset c)"
  by (simp add: indexInRange_def reset_def)

lemma indexInRange_replay: "indexInRange (replay c)"
  by (simp add: indexInRange_def replay_def play_def Let_def)

lemma indexInRange_setPlaybackSpeed:
  "indexInRange c \<Longrightarrow> indexInRange (setPlaybackSpeed ms c)"
proof -
  assume inv: "indexInRange c"
  then have "indexInRange (c\<lparr>playbackSpeed := max 100 ms\<rparr>)"
    by (simp add: indexInRange_def)
  then show ?thesis
    by (simp add: setPlaybackSpeed_def Let_def indexInRange_play indexInRange_pause)
qed

lemma indexInRange_applyOperation:
  "indexInRange c \<Longrightarrow> indexInRange (applyOperation c operation)"
  by (cases operation)
     (simp_all add: indexInRange_initialize indexInRange_addStep indexInRange_addSteps
        indexInRange_nextStep indexInRange_previous indexInRange_play indexInRange_tick
        indexInRange_pause indexInRange_replay indexInRange_reset indexInRange_clear
        indexInRange_setPlaybackSpeed)

lemma indexInRange_foldl:
  "indexInRange c \<Longrightarrow> indexInRange (foldl applyOperation c ops)"
  by (induction ops arbitrary: c) (simp_all add: indexInRange_applyOperation)

lemma indexInRange_new: "indexInRange newStepController"
  by (simp add: indexInRange_def newStepController_def)

lemma getCurrentStep_inRange:
  "indexInRange c \<Longrightarrow>
   (case getCurrentStep c of
      None \<Rightarrow> currentStepIndex c = -1
    | Some s \<Rightarrow> s \<in> set (steps c))"
  by (auto simp: indexInRange_def getCurrentStep_def)

lemma previous_at_start: "currentStepIndex c = -1 \<Longrightarrow> previous c = (False, c)"
  by (simp add: previous_def)

lemma previous_funpow_at_start:
  "currentStepIndex c = -1 \<Longrightarrow> ((\<lambda>c'. snd (previous c')) ^^ k) c = c"
  by (induction k) (simp_all add: previous_at_start)

text \<open>
  C10. From a fresh controller, after any sequence of operations (initialize, addStep,
  addSteps, next, previous, play, timer ticks, pause, replay, reset, clear, and
  setPlaybackSpeed as well), the current step index lies between -1 and
  \<open>steps.length - 1\<close>, and \<open>getCurrentStep\<close> returns \<open>null\<close> exactly at index -1 and an
  element of the loaded trace otherwise.
\<close>

theorem stepIndex_always_in_range:
  "- 1 \<le> currentStepIndex (runOperations ops) \<and>
   currentStepIndex (runOperations ops) \<le> int (length (steps (runOperations ops))) - 1 \<and>
   (case getCurrentStep (runOperations ops) of
      None \<Rightarrow> currentStepIndex (runOperations ops) = - 1
    | Some s \<Rightarrow> s \<in> set (steps (runOperations ops)))"
proof -
  have inv: "indexInRange (runOperations ops)"
    unfolding runOperations_def by (rule indexInRange_foldl [OF indexInRange_new])
  from getCurrentStep_inRange [OF inv] inv show ?thesis
    by (simp add: indexInRange_def)
qed

lemma addSteps3:
  "stype s0 \<noteq> [] \<Longrightarrow> stype s1 \<noteq> [] \<Longrightarrow> stype s2 \<noteq> [] \<Longrightarrow>
   addSteps [s0, s1, s2] (initialize name cityCount ur c) =
     (initialize name cityCount ur c)\<lparr>steps := [s0, s1, s2]\<rparr>"
  by (simp add: addSteps_def addStep_def initialize_def clear_def)

lemma initialize_fields:
  "currentStepIndex (initialize name cityCount ur c) = -1"
  "\<not> isPlaying (initialize name cityCount ur c)"
  by (simp_all add: initialize_def clear_def)

lemma nextStep_paused:
  "\<not> isPlaying c \<Longrightarrow> currentStepIndex c < int (length (steps c)) - 1 \<Longrightarrow>
   nextStep c = (True, c\<lparr>currentStepIndex := currentStepIndex c + 1\<rparr>)"
  by (simp add: nextStep_def Let_def split: option.splits)

lemma nextStep_at_end:
  "currentStepIndex c = int (length (steps c)) - 1 \<Longrightarrow> nextStep c = (False, c)"
  by (simp add: nextStep_def)

lemma previous_inside:
  "currentStepIndex c > - 1 \<Longrightarrow>
   previous c = (True, c\<lparr>currentStepIndex := currentStepIndex c - 1\<rparr>)"
  by (simp add: previous_def)

lemma replay_fields:
  "currentStepIndex (replay c) = - 1" "isPlaying (replay c)" "playbackInterval (replay c)"
  "steps (replay c) = steps c"
  by (simp_all add: replay_def play_def Let_def)

lemma currentStepIndex_nextStep:
  "currentStepIndex (snd (nextStep c)) =
     (if currentStepIndex c < int (length (steps c)) - 1 then currentStepIndex c + 1
      else currentStepIndex c)"
  by (simp add: nextStep_def Let_def split: option.splits)

lemma tick_replay_index:
  "currentStepIndex (tick (replay c)) = (if steps c = [] then - 1 else 0)"
proof -
  obtain advanced c1 where n: "nextStep (replay c) = (advanced, c1)"
    by (cases "nextStep (replay c)")
  have "currentStepIndex c1 = (if steps c = [] then - 1 else 0)"
    using currentStepIndex_nextStep [of "replay c"] n by (auto simp: replay_fields)
  then show ?thesis
    using n by (simp add: tick_def replay_fields)
qed

text \<open>
  C9. A controller initialised and loaded with a three-step trace: three \<open>next()\<close> calls
  return true and reach index 2, a fourth returns false and changes nothing; \<open>previous()\<close>
  from index 2 goes to 1, 0, -1 and then stays at -1 (returning false) however often it is
  called; \<open>replay()\<close> on any controller leaves the index at -1 with playback running, so
  the first timer tick advances from -1. Every operation is a total function of the
  controller without an error result: none of them raises.
\<close>

theorem playback_scenario:
  assumes "stype s0 \<noteq> []" "stype s1 \<noteq> []" "stype s2 \<noteq> []"
  shows
  "(let c0 = addSteps [s0, s1, s2] (initialize name cityCount ur c);
        c1 = snd (nextStep c0); c2 = snd (nextStep c1); c3 = snd (nextStep c2);
        p1 = snd (previous c3); p2 = snd (previous p1); p3 = snd (previous p2)
    in currentStepIndex c0 = - 1 \<and>
       fst (nextStep c0) \<and> fst (nextStep c1) \<and> fst (nextStep c2) \<and>
       currentStepIndex c3 = 2 \<and>
       nextStep c3 = (False, c3) \<and>
       currentStepIndex p1 = 1 \<and> currentStepIndex p2 = 0 \<and> currentStepIndex p3 = - 1 \<and>
       previous p3 = (False, p3) \<and>
       (\<forall>k. currentStepIndex (((\<lambda>c'. snd (previous c')) ^^ (k + 3)) c3) = - 1))
   \<and> (\<forall>c'. currentStepIndex (replay c') = - 1 \<and> isPlaying (replay c') \<and>
            steps (replay c') = steps c' \<and>
            currentStepIndex (tick (replay c')) = (if steps c' = [] then - 1 else 0))"
proof -
  define c0 where "c0 = addSteps [s0, s1, s2] (initialize name cityCount ur c)"
  have c0: "steps c0 = [s0, s1, s2]" "currentStepIndex c0 = - 1" "\<not> isPlaying c0"
    using assms by (simp_all add: c0_def addSteps3 initialize_fields)
  have n1: "nextStep c0 = (True, c0\<lparr>currentStepIndex := 0\<rparr>)"
    using c0 by (simp add: nextStep_paused)
  have n2: "nextStep (c0\<lparr>currentStepIndex := 0\<rparr>) = (True, c0\<lparr>currentStepIndex := 1\<rparr>)"
    using c0 by (simp add: nextStep_paused)
  have n3: "nextStep (c0\<lparr>currentStepIndex := 1\<rparr>) = (True, c0\<lparr>currentStepIndex := 2\<rparr>)"
    using c0 by (simp add: nextStep_paused)
  have n4: "nextStep (c0\<lparr>currentStepIndex := 2\<rparr>) = (False, c0\<lparr>currentStepIndex := 2\<rparr>)"
    using c0 by (simp add: nextStep_at_end)
  have p1: "previous (c0\<lparr>currentStepIndex := 2\<rparr>) = (True, c0\<lparr>currentStepIndex := 1\<rparr>)"
    by (simp add: previous_inside)
  have p2: "previous (c0\<lparr>currentStepIndex := 1\<rparr>) = (True, c0\<lparr>currentStepIndex := 0\<rparr>)"
    by (simp add: previous_inside)
  have p3: "previous (c0\<lparr>currentStepIndex := 0\<rparr>) = (True, c0\<lparr>currentStepIndex := - 1\<rparr>)"
    by (simp add: previous_inside)
  have p4: "previous (c0\<lparr>currentStepIndex := - 1\<rparr>) = (False, c0\<lparr>currentStepIndex := - 1\<rparr>)"
    by (simp add: previous_at_start)
  have clamp: "currentStepIndex (((\<lambda>c'. snd (previous c')) ^^ (k + 3)) (c0\<lparr>currentStepIndex := 2\<rparr>)) = - 1"
    for k
  proof -
    have three: "((\<lambda>c'. snd (previous c')) ^^ 3) (c0\<lparr>currentStepIndex := 2\<rparr>) = c0\<lparr>currentStepIndex := - 1\<rparr>"
      by (simp add: numeral_3_eq_3 p1 p2 p3)
    have "((\<lambda>c'. snd (previous c')) ^^ (k + 3)) (c0\<lparr>currentStepIndex := 2\<rparr>) =
          ((\<lambda>c'. snd (previous c')) ^^ k) (c0\<lparr>currentStepIndex := - 1\<rparr>)"
      by (simp only: funpow_add o_apply three)
    then show ?thesis
      by (simp add: previous_funpow_at_start)
  qed
  have scenario:
    "currentStepIndex c0 = - 1 \<and>
     fst (nextStep c0) \<and> fst (nextStep (c0\<lparr>currentStepIndex := 0\<rparr>)) \<and>
     fst (nextStep (c0\<lparr>currentStepIndex := 1\<rparr>)) \<and>
     currentStepIndex (c0\<lparr>currentStepIndex := 2\<rparr>) = 2 \<and>
     nextStep (c0\<lparr>currentStepIndex := 2\<rparr>) = (False, c0\<lparr>currentStepIndex := 2\<rparr>) \<and>
     previous (c0\<lparr>currentStepIndex := - 1\<rparr>) = (False, c0\<lparr>currentStepIndex := - 1\<rparr>) \<and>
     (\<forall>k. currentStepIndex (((\<lambda>c'. snd (previous c')) ^^ (k + 3)) (c0\<lparr>currentStepIndex := 2\<rparr>)) = - 1)"
    using c0 n1 n2 n3 n4 p4 clamp by simp
  show ?thesis
    unfolding Let_def c0_def [symmetric]
    using scenario by (simp add: n1 n2 n3 p1 p2 p3 replay_fields tick_replay_index)
qed

theorem playback_scenario_witness:
  "(let s = \<lparr>stype = ''permutation_check'', fromCity = None, toCity = None, spath = None,
             sdistance = None\<rparr>;
        f = \<lparr>stype = ''final_result'', fromCity = None, toCity = None, spath = Some [0, 1, 0],
             sdistance = Some (Num 2)\<rparr>;
        c0 = addSteps [s, s, f] (initialize ''bruteforce'' 2 [] newStepController);
        c3 = snd (nextStep (snd (nextStep (snd (nextStep c0)))))
    in stype s \<noteq> [] \<and> stype f \<noteq> [] \<and> currentStepIndex c3 = 2 \<and> nextStep c3 = (False, c3) \<and>
       currentStepIndex (((\<lambda>c'. snd (previous c')) ^^ 4) c3) = - 1)"
  using playback_scenario [of
      "\<lparr>stype = ''permutation_check'', fromCity = None, toCity = None, spath = None, sdistance = None\<rparr>"
      "\<lparr>stype = ''permutation_check'', fromCity = None, toCity = None, spath = None, sdistance = None\<rparr>"
      "\<lparr>stype = ''final_result'', fromCity = None, toCity = None, spath = Some [0, 1, 0], sdistance = Some (Num 2)\<rparr>"
      "''bruteforce''" 2 "[]" newStepController]
  apply (simp add: Let_def)
  apply (elim conjE)
  apply (drule_tac x = 1 in spec)
  apply simp
  done

section \<open>Properties of the number model\<close>

lemma overflowThreshold_large: "2 ^ 1000 \<le> overflowThreshold"
proof -
  have "(2::real) ^ 1024 = 2 ^ 54 * 2 ^ 970" "(2::real) ^ 1000 = 2 ^ 30 * 2 ^ 970"
    by (simp_all add: power_add [symmetric])
  then have "overflowThreshold - 2 ^ 1000 = (2 ^ 54 - 1 - 2 ^ 30) * 2 ^ 970"
    by (simp add: overflowThreshold_def algebra_simps)
  moreover have "(0::real) \<le> (2 ^ 54 - 1 - 2 ^ 30) * 2 ^ 970"
    by (intro mult_nonneg_nonneg) simp_all
  ultimately show ?thesis
    by linarith
qed

lemma overflowThreshold_gt_million: "1000000 < overflowThreshold"
proof -
  have "(1000000::real) < 2 ^ 20" by simp
  also have "\<dots> \<le> 2 ^ 1000" by (rule power_increasing) simp_all
  finally show ?thesis using overflowThreshold_large by linarith
qed

lemma overflowThreshold_gt_one: "1 < overflowThreshold"
  using overflowThreshold_gt_million by linarith

lemma EPSILON_pos: "0 < EPSILON"
  by (simp add: EPSILON_def)

lemma EPSILON_small: "EPSILON < 1"
  by (simp add: EPSILON_def)

lemma toDouble_in_range:
  "- overflowThreshold < r \<Longrightarrow> r < overflowThreshold \<Longrightarrow> toDouble r = Num r"
  by (simp add: toDouble_def)

lemma toDouble_small: "- 1000000 \<le> r \<Longrightarrow> r \<le> 1000000 \<Longrightarrow> toDouble r = Num r"
  using overflowThreshold_gt_million by (intro toDouble_in_range) linarith+

lemma toDouble_zero: "toDouble 0 = Num 0"
  using overflowThreshold_gt_one by (simp add: toDouble_def)

lemma toDouble_nonneg:
  "0 \<le> r \<Longrightarrow> toDouble r = (if overflowThreshold \<le> r then Infinity else Num r)"
  using overflowThreshold_gt_one by (simp add: toDouble_def)

lemma distanceValue_toDouble: "0 \<le> r \<Longrightarrow> distanceValue (toDouble r)"
  by (simp add: toDouble_nonneg distanceValue_def)

lemma distanceValue_zero: "distanceValue (Num 0)"
  using overflowThreshold_gt_one by (simp add: distanceValue_def)

lemma distanceValue_cases:
  assumes "distanceValue v"
  obtains "v = Infinity" | d where "v = Num d" "0 \<le> d" "d < overflowThreshold"
  using assms by (cases v) (auto simp: distanceValue_def)

lemma distanceValue_eq_toDouble:
  "distanceValue v \<Longrightarrow> \<exists>r. 0 \<le> r \<and> v = toDouble r"
proof (erule distanceValue_cases)
  assume "v = Infinity"
  then have "v = toDouble overflowThreshold"
    by (simp add: toDouble_def)
  then show ?thesis
    using overflowThreshold_gt_one by (intro exI [of _ overflowThreshold]) simp
next
  fix d assume "v = Num d" "0 \<le> d" "d < overflowThreshold"
  then show ?thesis
    by (intro exI [of _ d]) (simp add: toDouble_nonneg)
qed

lemma jsAdd_toDouble:
  "0 \<le> a \<Longrightarrow> 0 \<le> b \<Longrightarrow> jsAdd (toDouble a) (toDouble b) = toDouble (a + b)"
  by (auto simp: toDouble_nonneg)

lemma distanceValue_jsAdd:
  "distanceValue a \<Longrightarrow> distanceValue b \<Longrightarrow> distanceValue (jsAdd a b)"
proof -
  assume "distanceValue a" "distanceValue b"
  then obtain x y where "0 \<le> x" "a = toDouble x" "0 \<le> y" "b = toDouble y"
    by (meson distanceValue_eq_toDouble)
  then show ?thesis
    by (simp add: jsAdd_toDouble distanceValue_toDouble)
qed

lemma jsAdd_zero_left: "distanceValue v \<Longrightarrow> jsAdd (Num 0) v = v"
  by (erule distanceValue_cases) (simp_all add: toDouble_nonneg)

lemma jsSub_Num_Num: "jsSub (Num a) (Num b) = toDouble (a - b)"
  by (simp add: jsSub_def)

lemma jsSub_Infinity_Num: "jsSub Infinity (Num b) = Infinity"
  by (simp add: jsSub_def)

lemma jsMul_square: "jsMul (toDouble v) (toDouble v) = toDouble (v * v)"
proof -
  have big: "overflowThreshold \<le> v * v" if "overflowThreshold \<le> \<bar>v\<bar>"
  proof -
    have "overflowThreshold * 1 \<le> \<bar>v\<bar> * \<bar>v\<bar>"
      using that overflowThreshold_gt_one by (intro mult_mono) linarith+
    then show ?thesis
      by (simp add: abs_mult_self_eq)
  qed
  have nonneg: "0 \<le> v * v"
    by simp
  consider "overflowThreshold \<le> v" | "v \<le> - overflowThreshold"
    | "- overflowThreshold < v" "v < overflowThreshold"
    by linarith
  then show ?thesis
  proof cases
    case 1
    then have "overflowThreshold \<le> \<bar>v\<bar>" by linarith
    from big [OF this] 1 show ?thesis
      by (simp add: toDouble_def)
  next
    case 2
    then have "overflowThreshold \<le> \<bar>v\<bar>" by linarith
    from big [OF this] 2 overflowThreshold_gt_one show ?thesis
      by (simp add: toDouble_def)
  next
    case 3
    then show ?thesis
      by (simp add: toDouble_in_range)
  qed
qed

lemma jsSqrt_toDouble:
  "0 \<le> s \<Longrightarrow>
   jsSqrt (toDouble s) = (if overflowThreshold \<le> s then Infinity else Num (sqrt s))"
  by (simp add: toDouble_nonneg)

lemma jsLess_distanceValue_Num:
  "distanceValue v \<Longrightarrow> jsLess v w \<Longrightarrow> \<exists>d. v = Num d \<and> 0 \<le> d \<and> d < overflowThreshold"
  by (erule distanceValue_cases; cases w) auto

lemma jsLeq_refl: "distanceValue v \<Longrightarrow> jsLeq v v"
  by (erule distanceValue_cases) auto

lemma jsLeq_trans: "jsLeq a b \<Longrightarrow> jsLeq b c \<Longrightarrow> jsLeq a c"
  by (cases a; cases b; cases c) auto

lemma not_jsLess_jsLeq:
  "distanceValue a \<Longrightarrow> distanceValue b \<Longrightarrow> \<not> jsLess a b \<Longrightarrow> jsLeq b a"
  by (erule distanceValue_cases; erule distanceValue_cases) auto

lemma jsLess_jsLeq: "jsLess a b \<Longrightarrow> jsLeq a b"
  by (cases a; cases b) auto

lemma jsLeq_add_EPSILON:
  assumes "distanceValue v"
  shows "jsLeq v (jsAdd v (Num EPSILON))"
  using assms
proof (rule distanceValue_cases)
  assume "v = Infinity"
  then show ?thesis by simp
next
  fix d assume "v = Num d" "0 \<le> d" "d < overflowThreshold"
  then show ?thesis
    using EPSILON_pos by (simp add: toDouble_def)
qed

text \<open>
  The improvement test \<open>d < incumbent - EPSILON\<close> on distance values: when it fails, the
  incumbent is at most \<open>d + EPSILON\<close>; when it holds, \<open>d\<close> is finite and, for a finite
  incumbent, more than \<open>EPSILON\<close> below it.
\<close>

lemma not_improves_within:
  assumes "distanceValue d" "distanceValue m" "\<not> jsLess d (jsSub m (Num EPSILON))"
  shows "jsLeq m (jsAdd d (Num EPSILON))"
  using assms(2)
proof (rule distanceValue_cases)
  assume m: "m = Infinity"
  with assms(1,3) have "d = Infinity"
    by (elim distanceValue_cases) (simp_all add: jsSub_def)
  with m show ?thesis by simp
next
  fix b assume m: "m = Num b" "0 \<le> b" "b < overflowThreshold"
  have sub: "jsSub m (Num EPSILON) = Num (b - EPSILON)"
    using m EPSILON_pos EPSILON_small overflowThreshold_gt_one
    by (simp add: jsSub_def toDouble_def)
  from assms(1) show ?thesis
  proof (rule distanceValue_cases)
    assume "d = Infinity"
    with m show ?thesis by simp
  next
    fix x assume d: "d = Num x" "0 \<le> x" "x < overflowThreshold"
    with assms(3) sub have "b \<le> x + EPSILON"
      by simp
    with d m show ?thesis
      by (simp add: toDouble_def)
  qed
qed

lemma improves_finite:
  assumes "distanceValue d" "jsLess d (jsSub m (Num EPSILON))"
  shows "\<exists>x. d = Num x \<and> 0 \<le> x \<and> x < overflowThreshold \<and>
            (\<forall>b. m = Num b \<longrightarrow> x < b - EPSILON)"
proof -
  from jsLess_distanceValue_Num [OF assms] obtain x
    where d: "d = Num x" "0 \<le> x" "x < overflowThreshold"
    by blast
  have "x < b - EPSILON" if "m = Num b" for b
  proof -
    from assms(2) that d have "jsLess (Num x) (toDouble (b - EPSILON))"
      by (simp add: jsSub_def)
    with d(3) show ?thesis
      by (auto simp: toDouble_def split: if_splits)
  qed
  with d show ?thesis
    by blast
qed

section \<open>Properties of the distance functions\<close>

lemma calculateDistance_eq:
  "calculateDistance a b =
     (if overflowThreshold \<le> (cx b - cx a) * (cx b - cx a) + (cy b - cy a) * (cy b - cy a)
      then Infinity else Num (euclid a b))"
proof -
  have "calculateDistance a b =
        jsSqrt (toDouble ((cx b - cx a) * (cx b - cx a) + (cy b - cy a) * (cy b - cy a)))"
    by (simp add: calculateDistance_def Let_def jsSub_Num_Num jsMul_square jsAdd_toDouble)
  then show ?thesis
    by (simp add: jsSqrt_toDouble euclid_def power2_eq_square)
qed

lemma euclid_nonneg: "0 \<le> euclid a b"
  by (simp add: euclid_def)

lemma euclid_self: "euclid a a = 0"
  by (simp add: euclid_def)

lemma sqrt_below_threshold:
  assumes "0 \<le> s" "s < overflowThreshold"
  shows "sqrt s < overflowThreshold"
proof (cases "s \<le> 1")
  case True
  then have "sqrt s \<le> 1"
    using assms(1) by (simp add: real_sqrt_le_1_iff)
  with overflowThreshold_gt_one show ?thesis
    by linarith
next
  case False
  then have one: "1 \<le> sqrt s"
    by simp
  then have "sqrt s * 1 \<le> sqrt s * sqrt s"
    by (intro mult_left_mono) simp_all
  then have "sqrt s \<le> s"
    using assms(1) by simp
  with assms(2) show ?thesis
    by linarith
qed

lemma distanceValue_calculateDistance: "distanceValue (calculateDistance a b)"
proof -
  have "0 \<le> (cx b - cx a) * (cx b - cx a) + (cy b - cy a) * (cy b - cy a)"
    by simp
  then have "\<not> overflowThreshold \<le>
                (cx b - cx a) * (cx b - cx a) + (cy b - cy a) * (cy b - cy a) \<Longrightarrow>
             euclid a b < overflowThreshold"
    by (simp add: euclid_def power2_eq_square sqrt_below_threshold)
  then show ?thesis
    by (auto simp: calculateDistance_eq distanceValue_def euclid_nonneg)
qed

lemma calculateDistance_finite:
  "calculateDistance a b \<noteq> Infinity \<Longrightarrow> calculateDistance a b = Num (euclid a b)"
  by (simp add: calculateDistance_eq split: if_splits)

lemma calculateDistance_self: "calculateDistance a a = Num 0"
  using overflowThreshold_gt_one by (simp add: calculateDistance_eq euclid_self)

lemma calculateDistance_line:
  "\<bar>b - a\<bar> \<le> 1000 \<Longrightarrow>
   calculateDistance \<lparr>cid = i, cx = a, cy = 0\<rparr> \<lparr>cid = j, cx = b, cy = 0\<rparr> = Num \<bar>b - a\<bar>"
proof -
  assume small: "\<bar>b - a\<bar> \<le> 1000"
  then have "\<bar>b - a\<bar> * \<bar>b - a\<bar> \<le> 1000 * 1000"
    by (intro mult_mono) simp_all
  then have "(b - a) * (b - a) \<le> 1000000"
    by (simp add: abs_mult_self_eq)
  with overflowThreshold_gt_million show ?thesis
    by (simp add: calculateDistance_eq euclid_def)
qed

lemma cityAt_inRange:
  "0 \<le> i \<Longrightarrow> i < int (length cities) \<Longrightarrow> cityAt cities i = Some (cities ! nat i)"
  by (simp add: cityAt_def)

lemma distanceBetween_inRange:
  "0 \<le> a \<Longrightarrow> a < int (length cities) \<Longrightarrow> 0 \<le> b \<Longrightarrow> b < int (length cities) \<Longrightarrow>
   distanceBetween cities a b = Inr (calculateDistance (cities ! nat a) (cities ! nat b))"
  by (simp add: distanceBetween_def cityAt_inRange)

lemma distanceBetween_finite:
  assumes "finiteDistances cities"
    and "0 \<le> a" "a < int (length cities)" "0 \<le> b" "b < int (length cities)"
  shows "distanceBetween cities a b = Inr (Num (cityDist cities a b))"
proof -
  from assms(2-5) have "cities ! nat a \<in> set cities" "cities ! nat b \<in> set cities"
    by simp_all
  with assms(1) have "calculateDistance (cities ! nat a) (cities ! nat b) \<noteq> Infinity"
    by (simp add: finiteDistances_def)
  then show ?thesis
    using assms(2-5)
    by (simp add: distanceBetween_inRange calculateDistance_finite cityDist_def)
qed

lemma distanceBetween_distanceValue:
  "distanceBetween cities a b = Inr d \<Longrightarrow> distanceValue d"
  by (auto simp: distanceBetween_def distanceValue_calculateDistance split: option.splits)

lemma distanceBetween_self:
  "0 \<le> a \<Longrightarrow> a < int (length cities) \<Longrightarrow> distanceBetween cities a a = Inr (Num 0)"
  by (simp add: distanceBetween_inRange calculateDistance_self)

lemma cityDist_nonneg: "0 \<le> cityDist cities a b"
  by (simp add: cityDist_def euclid_nonneg)

lemma cityDist_self: "cityDist cities a a = 0"
  by (simp add: cityDist_def euclid_self)

lemma inRange_Cons: "inRange cities (a # r) \<longleftrightarrow> 0 \<le> a \<and> a < int (length cities) \<and> inRange cities r"
  by (auto simp: inRange_def)

lemma inRange_Nil: "inRange cities []"
  by (simp add: inRange_def)

lemma inRange_append: "inRange cities (r @ s) \<longleftrightarrow> inRange cities r \<and> inRange cities s"
  by (auto simp: inRange_def)

lemma inRange_mset: "mset r = mset s \<Longrightarrow> inRange cities r = inRange cities s"
  by (drule mset_eq_setD) (simp add: inRange_def)

lemma inRange_hd_last:
  "inRange cities r \<Longrightarrow> r \<noteq> [] \<Longrightarrow>
   0 \<le> hd r \<and> hd r < int (length cities) \<and> 0 \<le> last r \<and> last r < int (length cities)"
  by (simp add: inRange_def)

lemma pathLength_nonneg: "0 \<le> pathLength cities r"
  by (induction cities r rule: pathLength.induct) (simp_all add: cityDist_nonneg)

lemma pathLength_snoc:
  "r \<noteq> [] \<Longrightarrow> pathLength cities (r @ [v]) = pathLength cities r + cityDist cities (last r) v"
  by (induction cities r rule: pathLength.induct) simp_all

lemma tourLength_nonneg: "0 \<le> tourLength cities r"
  by (simp add: tourLength_def pathLength_nonneg cityDist_nonneg)

lemma sumEdges_distanceValue:
  "sumEdges cities r acc = Inr t \<Longrightarrow> distanceValue acc \<Longrightarrow> distanceValue t"
proof (induction cities r acc rule: sumEdges.induct)
  case (1 cities a b rest totalDistance)
  then show ?case
    by (auto split: sum.splits
        dest!: distanceBetween_distanceValue intro: distanceValue_jsAdd)
qed simp_all

lemma sumEdges_total: "inRange cities r \<Longrightarrow> \<exists>t. sumEdges cities r acc = Inr t"
proof (induction cities r acc rule: sumEdges.induct)
  case (1 cities a b rest totalDistance)
  then show ?case
    by (simp add: inRange_Cons distanceBetween_inRange)
qed simp_all

text \<open>The sum over a route extended by one entry adds the new edge last.\<close>

lemma sumEdges_snoc:
  "r \<noteq> [] \<Longrightarrow>
   sumEdges cities (r @ [v]) acc =
     (case sumEdges cities r acc of
        Inl e \<Rightarrow> Inl e
      | Inr t \<Rightarrow>
          (case distanceBetween cities (last r) v of
             Inl e \<Rightarrow> Inl e
           | Inr d \<Rightarrow> Inr (jsAdd t d)))"
proof (induction cities r acc rule: sumEdges.induct)
  case (1 cities a b rest totalDistance)
  then show ?case
    by (simp split: sum.splits)
next
  case (2 cities a totalDistance)
  show ?case
    by (simp split: sum.splits)
next
  case (3 cities totalDistance)
  then show ?case by simp
qed

lemma sumEdges_finite:
  "finiteDistances cities \<Longrightarrow> inRange cities r \<Longrightarrow> 0 \<le> a \<Longrightarrow>
   sumEdges cities r (toDouble a) = Inr (toDouble (a + pathLength cities r))"
proof (induction cities r "toDouble a" arbitrary: a rule: sumEdges.induct)
  case (1 cities x y rest)
  have d: "distanceBetween cities x y = Inr (toDouble (cityDist cities x y))"
  proof -
    from 1 have "distanceBetween cities x y = Inr (Num (cityDist cities x y))"
      by (simp add: inRange_Cons distanceBetween_finite)
    moreover from this have "distanceValue (Num (cityDist cities x y))"
      by (rule distanceBetween_distanceValue)
    then have "toDouble (cityDist cities x y) = Num (cityDist cities x y)"
      by (simp add: distanceValue_def toDouble_nonneg)
    ultimately show ?thesis by simp
  qed
  have "0 \<le> a + cityDist cities x y"
    using 1 cityDist_nonneg [of cities x y] by linarith
  from "1.hyps" [OF d _ "1.prems"(1) _ this] "1.prems"
  show ?case
    by (simp add: d jsAdd_toDouble cityDist_nonneg inRange_Cons add.assoc)
qed simp_all

lemma calculateTotalDistance_distanceValue:
  "calculateTotalDistance r cities = Inr d \<Longrightarrow> distanceValue d"
  by (auto simp: calculateTotalDistance_def Let_def distanceValue_zero
      split: option.splits if_splits sum.splits
      dest!: sumEdges_distanceValue distanceBetween_distanceValue
      intro: distanceValue_jsAdd)

lemma calculateTotalDistance_total:
  assumes "inRange cities r"
  shows "\<exists>d. calculateTotalDistance (Some r) cities = Inr d"
proof (cases "length r < 2")
  case True
  then show ?thesis by (simp add: calculateTotalDistance_def)
next
  case False
  then have ne: "r \<noteq> []" by auto
  from sumEdges_total [OF assms, of "Num 0"] obtain t where "sumEdges cities r (Num 0) = Inr t"
    by blast
  with False inRange_hd_last [OF assms ne] show ?thesis
    by (simp add: calculateTotalDistance_def distanceBetween_inRange)
qed

lemma calculateTotalDistance_short:
  "length r < 2 \<Longrightarrow> calculateTotalDistance (Some r) cities = Inr (Num 0)"
  by (simp add: calculateTotalDistance_def)

lemma closeRoute_nonempty: "r \<noteq> [] \<Longrightarrow> closeRoute r = r @ [hd r]"
  by (cases r) (simp_all add: closeRoute_def)

lemma calculateTotalDistance_closeRoute:
  assumes "inRange cities r" "distinct r"
  shows "calculateTotalDistance (Some (closeRoute r)) cities =
         calculateTotalDistance (Some r) cities"
proof (cases r)
  case Nil
  then show ?thesis by (simp add: closeRoute_def)
next
  case (Cons a rest)
  show ?thesis
  proof (cases rest)
    case Nil
    with Cons assms(1) show ?thesis
      by (simp add: closeRoute_def calculateTotalDistance_def inRange_Cons
          distanceBetween_self toDouble_zero)
  next
    case (Cons b rest')
    with \<open>r = a # rest\<close> assms(2) have open_ends: "hd r \<noteq> last r"
      by auto
    have ne: "r \<noteq> []" and long: "\<not> length r < 2" "\<not> length (r @ [hd r]) < 2"
      using Cons \<open>r = a # rest\<close> by simp_all
    have closed_ends: "hd (r @ [hd r]) = last (r @ [hd r])"
      using ne by simp
    show ?thesis
      unfolding closeRoute_nonempty [OF ne] calculateTotalDistance_def
      using long open_ends closed_ends
      by (simp add: sumEdges_snoc [OF ne] del: hd_append2 last_snoc split: sum.splits)
  qed
qed

lemma calculateTotalDistance_open:
  assumes "finiteDistances cities" "inRange cities r" "distinct r" "r \<noteq> []"
  shows "calculateTotalDistance (Some r) cities = Inr (toDouble (tourLength cities r))"
proof (cases "length r < 2")
  case True
  with assms(4) obtain a where "r = [a]"
    by (cases r) auto
  then show ?thesis
    using overflowThreshold_gt_one
    by (simp add: calculateTotalDistance_def tourLength_def cityDist_self toDouble_def)
next
  case False
  then obtain a b rest where r: "r = a # b # rest"
    by (cases r; cases "tl r") auto
  with assms(3) have "hd r \<noteq> last r"
    by auto
  moreover have "sumEdges cities r (Num 0) = Inr (toDouble (pathLength cities r))"
    using sumEdges_finite [OF assms(1,2), of 0] overflowThreshold_gt_one
    by (simp add: toDouble_def)
  moreover have "distanceBetween cities (last r) (hd r) =
                 Inr (toDouble (cityDist cities (last r) (hd r)))"
  proof -
    have "distanceBetween cities (last r) (hd r) = Inr (Num (cityDist cities (last r) (hd r)))"
      using inRange_hd_last [OF assms(2,4)] assms(1) by (simp add: distanceBetween_finite)
    moreover from this have "distanceValue (Num (cityDist cities (last r) (hd r)))"
      by (rule distanceBetween_distanceValue)
    then have "toDouble (cityDist cities (last r) (hd r)) = Num (cityDist cities (last r) (hd r))"
      by (simp add: distanceValue_def toDouble_nonneg)
    ultimately show ?thesis by simp
  qed
  ultimately show ?thesis
    using False
    by (simp add: calculateTotalDistance_def tourLength_def jsAdd_toDouble
        pathLength_nonneg cityDist_nonneg)
qed

lemma calculateTotalDistance_closed:
  assumes "finiteDistances cities" "inRange cities r" "distinct r" "r \<noteq> []"
  shows "calculateTotalDistance (Some (closeRoute r)) cities =
         Inr (toDouble (tourLength cities r))"
  using assms by (simp add: calculateTotalDistance_closeRoute calculateTotalDistance_open)

lemmas evalDistance =
  calculateTotalDistance_def distanceBetween_def cityAt_def calculateDistance_line
  closeRoute_def EPSILON_def toDouble_small jsSub_Num_Num jsSub_Infinity_Num

lemma lineCities_2:
  "lineCities [a, b] = [\<lparr>cid = 0, cx = a, cy = 0\<rparr>, \<lparr>cid = 1, cx = b, cy = 0\<rparr>]"
  by (simp add: lineCities_def)

lemma lineCities_3:
  "lineCities [a, b, c] =
     [\<lparr>cid = 0, cx = a, cy = 0\<rparr>, \<lparr>cid = 1, cx = b, cy = 0\<rparr>, \<lparr>cid = 2, cx = c, cy = 0\<rparr>]"
  by (simp add: lineCities_def)

lemma lineCities_4:
  "lineCities [a, b, c, d] =
     [\<lparr>cid = 0, cx = a, cy = 0\<rparr>, \<lparr>cid = 1, cx = b, cy = 0\<rparr>,
      \<lparr>cid = 2, cx = c, cy = 0\<rparr>, \<lparr>cid = 3, cx = d, cy = 0\<rparr>]"
  by (simp add: lineCities_def)

text \<open>
  C5. For every open route \<open>r\<close> over the city list (entries distinct and valid indices),
  \<open>calculateTotalDistance\<close> gives the same result for \<open>r\<close> and for \<open>r\<close> closed by
  appending its first entry; for every route with fewer than two entries, and for a null
  route, it returns 0.
\<close>

theorem routeLength_closure_invariance:
  "(inRange cities r \<and> distinct r \<longrightarrow>
      calculateTotalDistance (Some (closeRoute r)) cities =
      calculateTotalDistance (Some r) cities) \<and>
   (length r < 2 \<longrightarrow> calculateTotalDistance (Some r) cities = Inr (Num 0)) \<and>
   calculateTotalDistance None cities = Inr (Num 0)"
proof (intro conjI impI)
  assume "inRange cities r \<and> distinct r"
  then show "calculateTotalDistance (Some (closeRoute r)) cities =
             calculateTotalDistance (Some r) cities"
    by (simp add: calculateTotalDistance_closeRoute)
next
  assume "length r < 2"
  then show "calculateTotalDistance (Some r) cities = Inr (Num 0)"
    by (rule calculateTotalDistance_short)
next
  show "calculateTotalDistance None cities = Inr (Num 0)"
    by (simp add: calculateTotalDistance_def)
qed

theorem routeLength_closure_invariance_witness:
  "inRange (lineCities [0, 3, 1]) [0, 2, 1] \<and> distinct [0, 2, 1 :: int] \<and>
   calculateTotalDistance (Some (closeRoute [0, 2, 1])) (lineCities [0, 3, 1]) = Inr (Num 6) \<and>
   calculateTotalDistance (Some [0, 2, 1]) (lineCities [0, 3, 1]) = Inr (Num 6) \<and>
   length [5 :: int] < 2 \<and>
   calculateTotalDistance (Some [5]) (lineCities [0, 3, 1]) = Inr (Num 0)"
proof -
  have h: "inRange (lineCities [0, 3, 1]) [0, 2, 1] \<and> distinct [0, 2, 1 :: int]"
    by (simp add: inRange_def lineCities_def)
  have v: "calculateTotalDistance (Some [0, 2, 1]) (lineCities [0, 3, 1]) = Inr (Num 6)"
    by (simp add: lineCities_3 evalDistance)
  have s: "length [5 :: int] < 2" by simp
  note inst = routeLength_closure_invariance [of "lineCities [0, 3, 1]"]
  from inst [of "[0, 2, 1]"] h
  have "calculateTotalDistance (Some (closeRoute [0, 2, 1])) (lineCities [0, 3, 1]) =
        calculateTotalDistance (Some [0, 2, 1]) (lineCities [0, 3, 1])"
    by blast
  moreover from inst [of "[5]"] s
  have "calculateTotalDistance (Some [5]) (lineCities [0, 3, 1]) = Inr (Num 0)"
    by blast
  ultimately show ?thesis
    using h v s by (simp only: simp_thms)
qed

text \<open>
  C8. With fewer than two cities (or no city list at all), \<open>greedyTSP\<close>, \<open>twoOpt\<close> (for
  any initial route) and \<open>bruteForceTSP\<close> return the empty route with distance 0; none of
  them raises.
\<close>

theorem insufficient_cities_empty_result:
  "(case cities of None \<Rightarrow> True | Some cs \<Rightarrow> length cs < 2) \<Longrightarrow>
   greedyTSP cities = Inr \<lparr>path = [], distance = Num 0\<rparr> \<and>
   twoOpt cities initialRoute =
     Some (Inr \<lparr>route = [], routeDistance = Num 0, iterations = 0\<rparr>) \<and>
   bruteForceTSP cities = Inr \<lparr>path = [], distance = Num 0\<rparr>"
  by (cases cities) (simp_all add: greedyTSP_def twoOpt_def bruteForceTSP_def)

theorem insufficient_cities_empty_result_witness:
  "length (lineCities [4]) < 2 \<and>
   greedyTSP (Some (lineCities [4])) = Inr \<lparr>path = [], distance = Num 0\<rparr> \<and>
   twoOpt (Some (lineCities [4])) (Some [0]) =
     Some (Inr \<lparr>route = [], routeDistance = Num 0, iterations = 0\<rparr>) \<and>
   bruteForceTSP (Some (lineCities [4])) = Inr \<lparr>path = [], distance = Num 0\<rparr>"
proof -
  have h: "length (lineCities [4]) < 2"
    by (simp add: lineCities_def)
  then have "case Some (lineCities [4]) of None \<Rightarrow> True | Some cs \<Rightarrow> length cs < 2"
    by simp
  from insufficient_cities_empty_result [OF this, of "Some [0]"] h show ?thesis
    by (simp only: simp_thms)
qed

section \<open>Properties of the permutation generator and the exhaustive search\<close>

lemma generatePermutations_short:
  "length xs \<le> 1 \<Longrightarrow> generatePermutations xs = [xs]"
  by (subst generatePermutations.simps) simp

lemma generatePermutations_long:
  "\<not> length xs \<le> 1 \<Longrightarrow>
   generatePermutations xs =
     concat (map (\<lambda>i. map (\<lambda>perm. xs ! i # perm)
                           (generatePermutations (take i xs @ drop (i + 1) xs)))
                 [0 ..< length xs])"
  by (subst generatePermutations.simps) simp

lemma mset_without_nth:
  "i < length xs \<Longrightarrow> add_mset (xs ! i) (mset (take i xs @ drop (Suc i) xs)) = mset xs"
proof -
  assume "i < length xs"
  then have "xs = take i xs @ xs ! i # drop (Suc i) xs"
    by (rule id_take_nth_drop)
  then have "mset xs = mset (take i xs @ xs ! i # drop (Suc i) xs)"
    by simp
  then show ?thesis
    by simp
qed

lemma generatePermutations_sound:
  "ys \<in> set (generatePermutations xs) \<Longrightarrow> mset ys = mset xs"
proof (induction xs arbitrary: ys rule: generatePermutations.induct)
  case (1 array)
  show ?case
  proof (cases "length array \<le> 1")
    case True
    with "1.prems" show ?thesis
      by (simp add: generatePermutations_short)
  next
    case False
    with "1.prems" obtain i perm
      where i: "i < length array"
        and perm: "perm \<in> set (generatePermutations (take i array @ drop (i + 1) array))"
        and ys: "ys = array ! i # perm"
      by (auto simp: generatePermutations_long)
    from "1.IH" [OF False _ perm] i
    have "mset perm = mset (take i array @ drop (i + 1) array)"
      by simp
    with ys mset_without_nth [OF i] show ?thesis
      by simp
  qed
qed

lemma generatePermutations_complete:
  "mset ys = mset xs \<Longrightarrow> ys \<in> set (generatePermutations xs)"
proof (induction xs arbitrary: ys rule: generatePermutations.induct)
  case (1 array)
  have len: "length ys = length array"
    using "1.prems" by (rule mset_eq_length)
  show ?case
  proof (cases "length array \<le> 1")
    case True
    have "ys = array"
    proof (cases array)
      case Nil
      with len show ?thesis by simp
    next
      case (Cons a rest)
      with True have "array = [a]" by simp
      with "1.prems" show ?thesis by simp
    qed
    with True show ?thesis
      by (simp add: generatePermutations_short)
  next
    case False
    with len obtain y perm where ys: "ys = y # perm"
      by (cases ys) auto
    with "1.prems" have "y \<in> set array"
      using mset_eq_setD by fastforce
    then obtain i where i: "i < length array" and y: "array ! i = y"
      by (auto simp: in_set_conv_nth)
    from mset_without_nth [OF i] "1.prems" ys y
    have "add_mset y (mset perm) = add_mset y (mset (take i array @ drop (i + 1) array))"
      by simp
    then have "mset perm = mset (take i array @ drop (i + 1) array)"
      by simp
    from "1.IH" [OF False _ this] i
    have "perm \<in> set (generatePermutations (take i array @ drop (i + 1) array))"
      by simp
    with i y ys False show ?thesis
      by (auto simp: generatePermutations_long)
  qed
qed

lemma set_generatePermutations:
  "set (generatePermutations xs) = {ys. mset ys = mset xs}"
  using generatePermutations_sound generatePermutations_complete by blast

lemma length_generatePermutations:
  "length (generatePermutations xs) = fact (length xs)"
proof (induction xs rule: generatePermutations.induct)
  case (1 array)
  show ?case
  proof (cases "length array \<le> 1")
    case True
    then have "length array = 0 \<or> length array = 1" by linarith
    with True show ?thesis
      by (auto simp: generatePermutations_short)
  next
    case False
    have each: "length (generatePermutations (take i array @ drop (Suc i) array)) =
                fact (length array - Suc 0)" if "i < length array" for i
      using "1.IH" [OF False, of i] that by (simp add: min_def)
    have "length (generatePermutations array) =
          sum_list (map (\<lambda>i. length (generatePermutations (take i array @ drop (Suc i) array)))
                        [0 ..< length array])"
      using False by (simp add: generatePermutations_long length_concat comp_def)
    also have "\<dots> = sum_list (map (\<lambda>i. fact (length array - Suc 0)) [0 ..< length array])"
      by (rule arg_cong [where f = sum_list], rule map_cong) (simp_all add: each)
    also have "\<dots> = length array * fact (length array - Suc 0)"
      by (simp add: sum_list_triv)
    also have "\<dots> = fact (length array)"
      using False by (cases "length array") simp_all
    finally show ?thesis .
  qed
qed

lemma factorial_fact: "factorial n = fact n"
proof (induction n)
  case 0
  show ?case by (simp add: factorial_def)
next
  case (Suc n)
  show ?case
  proof (cases "n = 0")
    case True
    then show ?thesis by (simp add: factorial_def)
  next
    case False
    then have "[2 ..< Suc n + 1] = [2 ..< n + 1] @ [Suc n]"
      by simp
    with Suc show ?thesis
      by (simp add: factorial_def)
  qed
qed

lemma allCities_props:
  "distinct (allCities n)" "length (allCities n) = n" "inRange cities (allCities (length cities))"
  by (auto simp: allCities_def distinct_map inRange_def)

lemma isOpenRoute_props:
  assumes "isOpenRoute n r"
  shows "distinct r" "length r = n" "set r = set (allCities n)"
proof -
  from assms have m: "mset r = mset (allCities n)"
    by (simp add: isOpenRoute_def)
  from m show "distinct r"
    using allCities_props(1) [of n] by (metis mset_eq_imp_distinct_iff)
  from m show "length r = n"
    using mset_eq_length [OF m] by (simp add: allCities_props)
  from m show "set r = set (allCities n)"
    by (rule mset_eq_setD)
qed

lemma isOpenRoute_inRange: "isOpenRoute (length cities) r \<Longrightarrow> inRange cities r"
  using allCities_props(3) [of cities] inRange_mset [of r "allCities (length cities)" cities]
  by (simp add: isOpenRoute_def)

lemma isOpenRoute_permutation:
  "isOpenRoute n r \<longleftrightarrow> r \<in> set (generatePermutations (allCities n))"
  by (simp add: set_generatePermutations isOpenRoute_def)

lemma isOpenRoute_nonempty: "isOpenRoute n r \<Longrightarrow> 0 < n \<Longrightarrow> r \<noteq> []"
  using isOpenRoute_props(2) by fastforce

lemma allCities_isOpenRoute: "isOpenRoute n (allCities n)"
  by (simp add: isOpenRoute_def)

lemma generatePermutations_1: "generatePermutations [a] = [[a]]"
  by (simp add: generatePermutations_short)

lemma generatePermutations_2: "generatePermutations [a, b] = [[a, b], [b, a]]"
  by (simp add: generatePermutations_long generatePermutations_short)

lemma generatePermutations_3:
  "generatePermutations [a, b, c] =
     [[a, b, c], [a, c, b], [b, a, c], [b, c, a], [c, a, b], [c, b, a]]"
  by (simp add: generatePermutations_long generatePermutations_short)

lemma generatePermutations_4:
  "generatePermutations [a, b, c, d] =
     [[a, b, c, d], [a, b, d, c], [a, c, b, d], [a, c, d, b], [a, d, b, c], [a, d, c, b],
      [b, a, c, d], [b, a, d, c], [b, c, a, d], [b, c, d, a], [b, d, a, c], [b, d, c, a],
      [c, a, b, d], [c, a, d, b], [c, b, a, d], [c, b, d, a], [c, d, a, b], [c, d, b, a],
      [d, a, b, c], [d, a, c, b], [d, b, a, c], [d, b, c, a], [d, c, a, b], [d, c, b, a]]"
  by (simp add: generatePermutations_long generatePermutations_short)

lemma upt_4: "[0 ..< 4] = [0, 1, 2, 3]"
  by (simp add: upt_rec)


lemma improves_jsLeq:
  assumes "distanceValue d" "distanceValue m" "jsLess d (jsSub m (Num EPSILON))"
  shows "jsLeq d m \<and> d \<noteq> Infinity"
proof -
  from improves_finite [OF assms(1,3)] obtain x
    where x: "d = Num x" "\<forall>b. m = Num b \<longrightarrow> x < b - EPSILON"
    by blast
  from assms(2) have "jsLeq (Num x) m"
  proof (rule distanceValue_cases)
    assume "m = Infinity"
    then show ?thesis by simp
  next
    fix b assume "m = Num b" "0 \<le> b" "b < overflowThreshold"
    with x(2) EPSILON_pos show ?thesis by auto
  qed
  with x(1) show ?thesis
    by simp
qed

text \<open>
  The loop of the exhaustive search over routes whose distances do not overflow: the
  incumbent ends at most \<open>EPSILON\<close> above the tour length of every permutation it has
  seen, and is the tour length of one of them unless nothing was accepted.
\<close>

lemma bruteForceLoop_result:
  assumes "finiteDistances cities"
    and "\<forall>perm \<in> set perms. perm \<noteq> [] \<and> distinct perm \<and> inRange cities perm"
    and "distanceValue m"
  shows "\<exists>m' p'. bruteForceLoop cities perms (m, p) = Inr (m', p') \<and>
           distanceValue m' \<and> jsLeq m' m \<and>
           ((m', p') = (m, p) \<or>
            (\<exists>q \<in> set perms. m' = Num (tourLength cities q) \<and> p' = closeRoute q)) \<and>
           (\<forall>q \<in> set perms.
              jsLeq m' (jsAdd (toDouble (tourLength cities q)) (Num EPSILON)))"
  using assms(2,3)
proof (induction perms arbitrary: m p)
  case Nil
  then show ?case by (simp add: jsLeq_refl)
next
  case (Cons perm perms)
  define d where "d = toDouble (tourLength cities perm)"
  define accept where "accept = jsLess d (jsSub m (Num EPSILON))"
  define m1 where "m1 = (if accept then d else m)"
  define p1 where "p1 = (if accept then closeRoute perm else p)"
  from Cons.prems have ok: "perm \<noteq> []" "distinct perm" "inRange cities perm"
    and rest: "\<forall>perm \<in> set perms. perm \<noteq> [] \<and> distinct perm \<and> inRange cities perm"
    by simp_all
  have dv: "distanceValue d"
    unfolding d_def by (rule distanceValue_toDouble) (rule tourLength_nonneg)
  have step: "bruteForceLoop cities (perm # perms) (m, p) = bruteForceLoop cities perms (m1, p1)"
    using ok assms(1)
    by (simp add: calculateTotalDistance_closed Let_def d_def m1_def p1_def accept_def)
  have m1_dv: "distanceValue m1"
    using dv Cons.prems(2) by (simp add: m1_def)
  have m1_le: "jsLeq m1 m"
    using improves_jsLeq [OF dv Cons.prems(2)] Cons.prems(2)
    by (simp add: m1_def accept_def jsLeq_refl)
  have m1_within: "jsLeq m1 (jsAdd d (Num EPSILON))"
    using not_improves_within [OF dv Cons.prems(2)] jsLeq_add_EPSILON [OF dv]
    by (simp add: m1_def accept_def)
  have m1_origin: "(m1, p1) = (m, p) \<or> (m1 = Num (tourLength cities perm) \<and> p1 = closeRoute perm)"
  proof (cases accept)
    case True
    with improves_jsLeq [OF dv Cons.prems(2)] have "d \<noteq> Infinity"
      by (simp add: accept_def)
    then have "d = Num (tourLength cities perm)"
      by (simp add: d_def toDouble_nonneg tourLength_nonneg split: if_splits)
    with True show ?thesis
      by (simp add: m1_def p1_def)
  next
    case False
    then show ?thesis by (simp add: m1_def p1_def)
  qed
  from Cons.IH [OF rest m1_dv, of p1] obtain m' p'
    where run: "bruteForceLoop cities perms (m1, p1) = Inr (m', p')"
      and dv': "distanceValue m'" and le: "jsLeq m' m1"
      and origin: "(m', p') = (m1, p1) \<or>
                   (\<exists>q \<in> set perms. m' = Num (tourLength cities q) \<and> p' = closeRoute q)"
      and bound: "\<forall>q \<in> set perms.
                    jsLeq m' (jsAdd (toDouble (tourLength cities q)) (Num EPSILON))"
    by blast
  have r1: "jsLeq m' m"
    using le m1_le by (rule jsLeq_trans)
  have r2: "(m', p') = (m, p) \<or>
        (\<exists>q \<in> set (perm # perms). m' = Num (tourLength cities q) \<and> p' = closeRoute q)"
    using origin m1_origin by auto
  have r3: "\<forall>q \<in> set (perm # perms).
              jsLeq m' (jsAdd (toDouble (tourLength cities q)) (Num EPSILON))"
  proof
    fix q assume "q \<in> set (perm # perms)"
    then consider "q = perm" | "q \<in> set perms" by auto
    then show "jsLeq m' (jsAdd (toDouble (tourLength cities q)) (Num EPSILON))"
    proof cases
      case 1
      from jsLeq_trans [OF le m1_within] 1 show ?thesis
        by (simp add: d_def)
    next
      case 2
      with bound show ?thesis by blast
    qed
  qed
  from step run dv' r1 r2 r3 show ?case
    by simp
qed

lemma openRoutes_wellformed:
  assumes "0 < length cities"
  shows "\<forall>perm \<in> set (generatePermutations (allCities (length cities))).
           perm \<noteq> [] \<and> distinct perm \<and> inRange cities perm"
proof
  fix perm assume "perm \<in> set (generatePermutations (allCities (length cities)))"
  then have o: "isOpenRoute (length cities) perm"
    by (simp add: isOpenRoute_permutation)
  from isOpenRoute_nonempty [OF o assms] isOpenRoute_props(1) [OF o] isOpenRoute_inRange [OF o]
  show "perm \<noteq> [] \<and> distinct perm \<and> inRange cities perm"
    by simp
qed

lemma bruteForceTSP_result:
  assumes "2 \<le> length cities" "length cities \<le> 10" "finiteDistances cities"
  shows "\<exists>m' p'.
           bruteForceTSP (Some cities) = Inr \<lparr>path = p', distance = m'\<rparr> \<and>
           distanceValue m' \<and>
           (m' = Infinity \<and> p' = [] \<or>
            (\<exists>q. isOpenRoute (length cities) q \<and> m' = Num (tourLength cities q) \<and>
                 p' = closeRoute q)) \<and>
           (\<forall>r. isOpenRoute (length cities) r \<longrightarrow>
                  jsLeq m' (jsAdd (toDouble (tourLength cities r)) (Num EPSILON)))"
proof -
  define perms where "perms = generatePermutations (allCities (length cities))"
  have mem: "r \<in> set perms \<longleftrightarrow> isOpenRoute (length cities) r" for r
    by (simp add: perms_def isOpenRoute_permutation)
  from assms(1) have "0 < length cities"
    by linarith
  from openRoutes_wellformed [OF this]
  have ok: "\<forall>perm \<in> set perms. perm \<noteq> [] \<and> distinct perm \<and> inRange cities perm"
    by (simp add: perms_def)
  have inf: "distanceValue Infinity"
    by (simp add: distanceValue_def)
  from bruteForceLoop_result [OF assms(3) ok inf, of "[]"] obtain m' p'
    where run: "bruteForceLoop cities perms (Infinity, []) = Inr (m', p')"
      and dv: "distanceValue m'"
      and origin: "(m', p') = (Infinity, []) \<or>
                   (\<exists>q \<in> set perms. m' = Num (tourLength cities q) \<and> p' = closeRoute q)"
      and bound: "\<forall>q \<in> set perms.
                    jsLeq m' (jsAdd (toDouble (tourLength cities q)) (Num EPSILON))"
    by blast
  have "bruteForceTSP (Some cities) = Inr \<lparr>path = p', distance = m'\<rparr>"
    using assms(1,2) run by (simp add: bruteForceTSP_def perms_def allCities_def)
  with dv origin bound show ?thesis
    by (auto simp: mem)
qed

lemma finiteDistances_lineCities:
  assumes "\<forall>v \<in> set xs. \<bar>v\<bar> \<le> 500"
  shows "finiteDistances (lineCities xs)"
proof -
  have shape: "\<exists>i v. c = \<lparr>cid = i, cx = v, cy = 0\<rparr> \<and> \<bar>v\<bar> \<le> 500"
    if "c \<in> set (lineCities xs)" for c
    using that assms by (auto simp: lineCities_def in_set_enumerate_eq)
  show ?thesis
    unfolding finiteDistances_def
  proof (intro ballI)
    fix a b assume "a \<in> set (lineCities xs)" "b \<in> set (lineCities xs)"
    then obtain i v j w
      where a: "a = \<lparr>cid = i, cx = v, cy = 0\<rparr>" "\<bar>v\<bar> \<le> 500"
        and b: "b = \<lparr>cid = j, cx = w, cy = 0\<rparr>" "\<bar>w\<bar> \<le> 500"
      by (meson shape)
    then have "\<bar>w - v\<bar> \<le> 1000"
      by linarith
    then show "calculateDistance a b \<noteq> Infinity"
      by (simp add: a b calculateDistance_line)
  qed
qed

section \<open>Properties of the live search\<close>

lemma calculatePathDistance_closed:
  assumes "inRange cities r" "r \<noteq> []"
  shows "\<exists>d. calculatePathDistance (closeRoute r) cities = Inr d \<and> distanceValue d"
proof -
  obtain a rest where r: "r = a # rest"
    using assms(2) by (cases r) auto
  from assms have c: "inRange cities (a # rest @ [a])"
    by (simp add: r inRange_append inRange_Cons inRange_Nil)
  from assms(1) have a: "0 \<le> a" "a < int (length cities)"
    by (simp_all add: r inRange_Cons)
  have cr: "closeRoute r = a # rest @ [a]"
    by (simp add: r closeRoute_def)
  from sumEdges_total [OF c, of "Num 0"] obtain t
    where t: "sumEdges cities (a # rest @ [a]) (Num 0) = Inr t"
    by blast
  from sumEdges_distanceValue [OF t distanceValue_zero] have "distanceValue t" .
  then have "distanceValue (jsAdd t (Num 0))"
    by (intro distanceValue_jsAdd distanceValue_zero)
  with t a show ?thesis
    by (simp add: cr calculatePathDistance_def distanceBetween_self)
qed

lemma liveLoop_result:
  assumes "\<forall>perm \<in> set perms. perm \<noteq> [] \<and> inRange cities perm" and "distanceValue m"
  shows "\<exists>m' p' k. liveLoop cities tok perms (m, p, c) = Inr (m', p', c + k) \<and>
           k \<le> length perms \<and>
           (k < length perms \<longrightarrow> tok (c + k)) \<and>
           (\<forall>j < k. \<not> tok (c + j)) \<and>
           distanceValue m' \<and> jsLeq m' m \<and>
           (\<forall>j < k. \<exists>d. calculatePathDistance (closeRoute (perms ! j)) cities = Inr d \<and>
                          jsLeq m' d) \<and>
           ((m', p') = (m, p) \<or>
            (\<exists>j < k. calculatePathDistance (closeRoute (perms ! j)) cities = Inr m' \<and>
                      p' = Some (closeRoute (perms ! j))))"
  using assms
proof (induction perms arbitrary: m p c)
  case Nil
  then show ?case by (simp add: jsLeq_refl)
next
  case (Cons perm perms)
  show ?case
  proof (cases "tok c")
    case True
    then have "liveLoop cities tok (perm # perms) (m, p, c) = Inr (m, p, c + 0)"
      by simp
    moreover have "tok (c + 0)" using True by simp
    ultimately show ?thesis
      using Cons.prems(2)
      by (intro exI [of _ m] exI [of _ p] exI [of _ 0]) (simp add: jsLeq_refl)
  next
    case False
    from Cons.prems have ok: "perm \<noteq> []" "inRange cities perm"
      and rest: "\<forall>perm \<in> set perms. perm \<noteq> [] \<and> inRange cities perm"
      by simp_all
    from calculatePathDistance_closed [OF ok(2,1)] obtain d
      where d: "calculatePathDistance (closeRoute perm) cities = Inr d" and dv: "distanceValue d"
      by blast
    define m1 where "m1 = (if jsLess d m then d else m)"
    define p1 where "p1 = (if jsLess d m then Some (closeRoute perm) else p)"
    have step: "liveLoop cities tok (perm # perms) (m, p, c) =
                liveLoop cities tok perms (m1, p1, c + 1)"
      using False d by (simp add: Let_def m1_def p1_def)
    have m1_dv: "distanceValue m1"
      using dv Cons.prems(2) by (simp add: m1_def)
    have m1_le: "jsLeq m1 m"
      using Cons.prems(2) by (simp add: m1_def jsLess_jsLeq jsLeq_refl)
    have m1_d: "jsLeq m1 d"
      using not_jsLess_jsLeq [OF dv Cons.prems(2)] dv by (simp add: m1_def jsLeq_refl)
    from Cons.IH [OF rest m1_dv, of p1 "c + 1"] obtain m' p' k
      where run: "liveLoop cities tok perms (m1, p1, c + 1) = Inr (m', p', c + 1 + k)"
        and len: "k \<le> length perms"
        and stop: "k < length perms \<longrightarrow> tok (c + 1 + k)"
        and before: "\<forall>j < k. \<not> tok (c + 1 + j)"
        and dv': "distanceValue m'" and le: "jsLeq m' m1"
        and bound: "\<forall>j < k. \<exists>d. calculatePathDistance (closeRoute (perms ! j)) cities = Inr d \<and>
                                 jsLeq m' d"
        and origin: "(m', p') = (m1, p1) \<or>
                     (\<exists>j < k. calculatePathDistance (closeRoute (perms ! j)) cities = Inr m' \<and>
                               p' = Some (closeRoute (perms ! j)))"
      by blast
    have r1: "liveLoop cities tok (perm # perms) (m, p, c) = Inr (m', p', c + Suc k)"
      using step run by simp
    have r2: "Suc k \<le> length (perm # perms)"
      using len by simp
    have r3: "Suc k < length (perm # perms) \<longrightarrow> tok (c + Suc k)"
      using stop by simp
    have r4: "\<forall>j < Suc k. \<not> tok (c + j)"
    proof (intro allI impI)
      fix j assume "j < Suc k"
      then show "\<not> tok (c + j)"
        using False before by (cases j) auto
    qed
    have r5: "\<forall>j < Suc k. \<exists>d. calculatePathDistance (closeRoute ((perm # perms) ! j)) cities =
                                  Inr d \<and> jsLeq m' d"
    proof (intro allI impI)
      fix j assume j: "j < Suc k"
      show "\<exists>d. calculatePathDistance (closeRoute ((perm # perms) ! j)) cities = Inr d \<and>
                jsLeq m' d"
      proof (cases j)
        case 0
        from jsLeq_trans [OF le m1_d] d 0 show ?thesis by simp
      next
        case (Suc i)
        with j bound show ?thesis by simp
      qed
    qed
    have r6: "(m', p') = (m, p) \<or>
              (\<exists>j < Suc k. calculatePathDistance (closeRoute ((perm # perms) ! j)) cities =
                              Inr m' \<and>
                            p' = Some (closeRoute ((perm # perms) ! j)))"
    proof -
      from origin consider "(m', p') = (m1, p1)"
        | j where "j < k" "calculatePathDistance (closeRoute (perms ! j)) cities = Inr m'"
            "p' = Some (closeRoute (perms ! j))"
        by blast
      then show ?thesis
      proof cases
        case 1
        show ?thesis
        proof (cases "jsLess d m")
          case True
          with 1 d have "calculatePathDistance (closeRoute ((perm # perms) ! 0)) cities = Inr m' \<and>
                         p' = Some (closeRoute ((perm # perms) ! 0))"
            by (simp add: m1_def p1_def)
          then show ?thesis by blast
        next
          case False
          with 1 show ?thesis by (simp add: m1_def p1_def)
        qed
      next
        case 2
        then have "Suc j < Suc k \<and>
                   calculatePathDistance (closeRoute ((perm # perms) ! Suc j)) cities = Inr m' \<and>
                   p' = Some (closeRoute ((perm # perms) ! Suc j))"
          by simp
        then show ?thesis by blast
      qed
    qed
    have r7: "jsLeq m' m"
      using le m1_le by (rule jsLeq_trans)
    from r1 r2 r3 r4 r5 r6 r7 dv' show ?thesis
      by blast
  qed
qed

text \<open>
  C7, as the code has it. For at most nine cities (and at least one, unless the token is
  set before the first check) the run returns a result and no error. The runner reads
  the token as clear before every permutation it evaluates, so the count of permutations
  checked is below the total \<open>n!\<close> exactly when the token is read as set at one of the
  checks, and then it is set at the check the run stopped at; a token that is set only
  after the last check leaves the count at the total. In every case the best distance is
  at most the distance of every evaluated permutation, and the best route is one of the
  evaluated closed routes with exactly that distance, or \<open>null\<close> with \<open>Infinity\<close> when no
  evaluated permutation had a finite distance.
\<close>

theorem live_search_result:
  assumes "length cities \<le> 9" and "1 \<le> length cities \<or> tok 0"
  shows "\<exists>r. runBruteForceLive cities tok = Inr r \<and>
           totalPermutations r = fact (length cities) \<and>
           permutationsChecked r \<le> totalPermutations r \<and>
           (permutationsChecked r < totalPermutations r \<longleftrightarrow>
              (\<exists>k < fact (length cities). tok k)) \<and>
           (permutationsChecked r < totalPermutations r \<longrightarrow> tok (permutationsChecked r)) \<and>
           (\<forall>j < permutationsChecked r.
              \<not> tok j \<and>
              (\<exists>d. calculatePathDistance
                      (closeRoute (generatePermutations (allCities (length cities)) ! j))
                      cities = Inr d \<and>
                   jsLeq (liveDistance r) d)) \<and>
           (livePath r = None \<and> liveDistance r = Infinity \<or>
            (\<exists>j < permutationsChecked r.
               livePath r = Some (closeRoute (generatePermutations (allCities (length cities)) ! j)) \<and>
               calculatePathDistance
                 (closeRoute (generatePermutations (allCities (length cities)) ! j))
                 cities = Inr (liveDistance r)))"
proof (cases "length cities = 0")
  case True
  with assms have "tok 0" by simp
  with True show ?thesis
    by (auto simp: runBruteForceLive_def factorial_fact generatePermutations_short)
next
  case False
  define perms where "perms = generatePermutations (allCities (length cities))"
  have len: "length perms = fact (length cities)"
    by (simp add: perms_def length_generatePermutations allCities_props)
  from False have "0 < length cities" by simp
  from openRoutes_wellformed [OF this]
  have ok: "\<forall>perm \<in> set perms. perm \<noteq> [] \<and> inRange cities perm"
    by (simp add: perms_def)
  have inf: "distanceValue Infinity"
    by (simp add: distanceValue_def)
  from liveLoop_result [OF ok inf, of tok None 0] obtain m' p' n
    where run: "liveLoop cities tok perms (Infinity, None, 0) = Inr (m', p', n)"
      and n_len: "n \<le> length perms"
      and before: "\<forall>j < n. \<not> tok j"
      and stop: "n < length perms \<longrightarrow> tok n"
      and bound: "\<forall>j < n. \<exists>d. calculatePathDistance (closeRoute (perms ! j)) cities = Inr d \<and>
                               jsLeq m' d"
      and origin: "(m', p') = (Infinity, None) \<or>
                   (\<exists>j < n. calculatePathDistance (closeRoute (perms ! j)) cities = Inr m' \<and>
                             p' = Some (closeRoute (perms ! j)))"
    by auto
  have early: "n < length perms \<longleftrightarrow> (\<exists>k < length perms. tok k)"
  proof
    assume "n < length perms"
    with stop show "\<exists>k < length perms. tok k" by blast
  next
    assume "\<exists>k < length perms. tok k"
    then obtain k where k: "k < length perms" "tok k" by blast
    with before have "n \<le> k" by (meson not_le)
    with k(1) show "n < length perms" by simp
  qed
  define r where "r = \<lparr>livePath = p', liveDistance = m', permutationsChecked = n,
                       totalPermutations = fact (length cities)\<rparr>"
  have 1: "runBruteForceLive cities tok = Inr r"
    using assms(1) run
    by (simp add: runBruteForceLive_def Let_def perms_def allCities_def factorial_fact r_def)
  have 2: "\<forall>j < n. \<not> tok j \<and>
             (\<exists>d. calculatePathDistance (closeRoute (perms ! j)) cities = Inr d \<and> jsLeq m' d)"
    using before bound by auto
  have 3: "p' = None \<and> m' = Infinity \<or>
           (\<exists>j < n. p' = Some (closeRoute (perms ! j)) \<and>
              calculatePathDistance (closeRoute (perms ! j)) cities = Inr m')"
    using origin by auto
  from 1 2 3 n_len stop early len show ?thesis
    unfolding perms_def [symmetric]
    by (intro exI [of _ r]) (simp add: r_def)
qed

lemma upt_2: "[0 ..< 2] = [0, 1]"
  by (simp add: upt_rec)

lemmas evalLive =
  runBruteForceLive_def lineCities_2 upt_2 generatePermutations_2 factorial_fact fact_2
  calculatePathDistance_def distanceBetween_def cityAt_def calculateDistance_line
  closeRoute_def toDouble_small cancelAfter_def

text \<open>
  C7, as stated, asks for a count below the total whenever the token is set while the run
  is under way. The token is not read again after the last permutation: with two cities
  and \<open>cancel()\<close> called during the suspension that follows the second permutation, the
  token is clear at both checks and the result has
  \<open>permutationsChecked = totalPermutations = 2\<close>.
\<close>

theorem live_cancellation_after_last_permutation:
  "runBruteForceLive (lineCities [0, 1]) (cancelAfter 2) =
     Inr \<lparr>livePath = Some [0, 1, 0], liveDistance = Num 2, permutationsChecked = 2,
          totalPermutations = 2\<rparr>"
  by (simp add: evalLive)

theorem live_search_result_witness:
  "length (lineCities [0, 1]) \<le> 9 \<and> 1 \<le> length (lineCities [0, 1]) \<and>
   (\<exists>k < fact (length (lineCities [0, 1])). cancelAfter 1 k) \<and>
   (\<exists>r. runBruteForceLive (lineCities [0, 1]) (cancelAfter 1) = Inr r \<and>
        permutationsChecked r < totalPermutations r \<and> totalPermutations r = 2)"
proof -
  have h1: "length (lineCities [0, 1]) \<le> 9"
    by (simp add: lineCities_2)
  have h2: "1 \<le> length (lineCities [0, 1])"
    by (simp add: lineCities_2)
  have f: "fact (length (lineCities [0, 1])) = (2::nat)"
    by (simp add: lineCities_2 fact_2)
  have "(1::nat) < 2 \<and> cancelAfter 1 1"
    by (simp add: cancelAfter_def)
  then have h3: "\<exists>k < fact (length (lineCities [0, 1])). cancelAfter 1 k"
    unfolding f by blast
  from h2 have "1 \<le> length (lineCities [0, 1]) \<or> cancelAfter 1 0"
    by simp
  from live_search_result [OF h1, of "cancelAfter 1", OF this] h3
  have "\<exists>r. runBruteForceLive (lineCities [0, 1]) (cancelAfter 1) = Inr r \<and>
        permutationsChecked r < totalPermutations r \<and> totalPermutations r = 2"
    unfolding f by blast
  with h1 h2 h3 show ?thesis
    by (simp only: simp_thms)
qed

section \<open>Size limits and sampling\<close>

lemma runBruteForceLive_over_nine:
  "9 < length cities \<Longrightarrow> runBruteForceLive cities tok = Inl SizeLimitExceeded"
  by (simp add: runBruteForceLive_def)

lemma bruteForceTSP_over_ten:
  "10 < length cities \<Longrightarrow> bruteForceTSP (Some cities) = Inl SizeLimitExceeded"
  by (simp add: bruteForceTSP_def)

lemma tourLength_line10:
  "tourLength (lineCities [0, 1, 2, 3, 4, 5, 6, 7, 8, 9]) (allCities 10) = 18"
  by (simp add: tourLength_def allCities_def upt_rec cityDist_def euclid_def lineCities_def)

text \<open>
  C2. The live runner raises its size-limit error above nine cities. \<open>bruteForceTSP\<close>
  raises only above ten: on ten cities it runs the whole search and returns a closed
  route through all ten with its distance.
\<close>

theorem bruteForceTSP_accepts_ten_cities:
  "(\<exists>q. bruteForceTSP (Some (lineCities [0, 1, 2, 3, 4, 5, 6, 7, 8, 9])) =
          Inr \<lparr>path = closeRoute q,
               distance = Num (tourLength (lineCities [0, 1, 2, 3, 4, 5, 6, 7, 8, 9]) q)\<rparr> \<and>
        mset q = mset (allCities 10)) \<and>
   runBruteForceLive (lineCities [0, 1, 2, 3, 4, 5, 6, 7, 8, 9]) isCancelled =
     Inl SizeLimitExceeded"
proof -
  define cs where "cs = lineCities [0, 1, 2, 3, 4, 5, 6, 7, 8, 9]"
  have len: "length cs = 10"
    by (simp add: cs_def lineCities_def)
  have fin: "finiteDistances cs"
    unfolding cs_def by (rule finiteDistances_lineCities) simp
  from bruteForceTSP_result [of cs] len fin obtain m' p'
    where b: "bruteForceTSP (Some cs) = Inr \<lparr>path = p', distance = m'\<rparr>"
      and origin: "m' = Infinity \<and> p' = [] \<or>
                   (\<exists>q. isOpenRoute 10 q \<and> m' = Num (tourLength cs q) \<and> p' = closeRoute q)"
      and bound: "\<forall>r. isOpenRoute 10 r \<longrightarrow>
                    jsLeq m' (jsAdd (toDouble (tourLength cs r)) (Num EPSILON))"
    by auto
  from bound allCities_isOpenRoute [of 10]
  have "jsLeq m' (jsAdd (toDouble (tourLength cs (allCities 10))) (Num EPSILON))"
    by blast
  then have "m' \<noteq> Infinity"
    by (auto simp: cs_def tourLength_line10 toDouble_small EPSILON_def)
  with origin obtain q
    where "isOpenRoute 10 q" "m' = Num (tourLength cs q)" "p' = closeRoute q"
    by blast
  with b have "\<exists>q. bruteForceTSP (Some cs) =
                 Inr \<lparr>path = closeRoute q, distance = Num (tourLength cs q)\<rparr> \<and>
               mset q = mset (allCities 10)"
    by (auto simp: isOpenRoute_def)
  moreover have "runBruteForceLive cs isCancelled = Inl SizeLimitExceeded"
    by (simp add: runBruteForceLive_over_nine len)
  ultimately show ?thesis
    unfolding cs_def by blast
qed

text \<open>
  With the sampling rate 1 every permutation is sampled, and the generator's loop keeps
  the same incumbent as the loop of \<open>bruteForceTSP\<close>.
\<close>

lemma bruteForceStepsLoop_rate_one:
  assumes "\<forall>perm \<in> set perms. perm \<noteq> [] \<and> distinct perm \<and> inRange cities perm"
    and "bp = None \<and> p = [] \<or> bp = Some p \<and> p \<noteq> [] \<and> hd p = last p"
  shows "\<exists>m' p' bp' c' s' acc'.
           bruteForceLoop cities perms (m, p) = Inr (m', p') \<and>
           bruteForceStepsLoop cities 1 perms (m, bp, c, s, acc) =
             Inr (m', bp', c', s', acc') \<and>
           (bp' = None \<and> p' = [] \<or> bp' = Some p' \<and> p' \<noteq> [] \<and> hd p' = last p')"
  using assms
proof (induction perms arbitrary: m p bp c s acc)
  case Nil
  then show ?case by simp
next
  case (Cons perm perms)
  from Cons.prems(1) have ok: "perm \<noteq> []" "distinct perm" "inRange cities perm"
    and rest: "\<forall>perm \<in> set perms. perm \<noteq> [] \<and> distinct perm \<and> inRange cities perm"
    by simp_all
  from calculateTotalDistance_total [OF ok(3)] obtain d
    where opened: "calculateTotalDistance (Some perm) cities = Inr d"
    by blast
  then have closed: "calculateTotalDistance (Some (closeRoute perm)) cities = Inr d"
    using ok by (simp add: calculateTotalDistance_closeRoute)
  have shape: "closeRoute perm \<noteq> [] \<and> hd (closeRoute perm) = last (closeRoute perm)"
    using ok(1) by (simp add: closeRoute_nonempty)
  show ?case
  proof (cases "jsLess d (jsSub m (Num EPSILON))")
    case True
    have l: "bruteForceLoop cities (perm # perms) (m, p) =
             bruteForceLoop cities perms (d, closeRoute perm)"
      using True closed by (simp add: Let_def)
    have g: "bruteForceStepsLoop cities 1 (perm # perms) (m, bp, c, s, acc) =
             bruteForceStepsLoop cities 1 perms
               (d, Some (closeRoute perm), c + 1, s + 1,
                acc @ [plainStep ''best_found'', plainStep ''permutation_check''])"
      using True opened by (simp add: Let_def)
    from Cons.IH [OF rest, of "Some (closeRoute perm)" "closeRoute perm" d] shape l g
    show ?thesis
      by simp
  next
    case False
    have l: "bruteForceLoop cities (perm # perms) (m, p) = bruteForceLoop cities perms (m, p)"
      using False closed by (simp add: Let_def)
    have g: "bruteForceStepsLoop cities 1 (perm # perms) (m, bp, c, s, acc) =
             bruteForceStepsLoop cities 1 perms
               (m, bp, c + 1, s + 1, acc @ [plainStep ''permutation_check''])"
      using False opened by (simp add: Let_def)
    from Cons.IH [OF rest Cons.prems(2), of m] l g
    show ?thesis
      by simp
  qed
qed

lemma generateBruteForceSteps_rate_one:
  assumes "2 \<le> length cities" "length cities \<le> 10"
  shows "\<exists>p m.
           bruteForceTSP (Some cities) = Inr \<lparr>path = p, distance = m\<rparr> \<and>
           (p = [] \<and> generateBruteForceSteps cities 1 = Inl TypeError \<or>
            (\<exists>acc. generateBruteForceSteps cities 1 = Inr (acc @ [finalResultStep p m])))"
proof -
  define perms where "perms = generatePermutations (map int [0 ..< length cities])"
  from assms(1) have "0 < length cities"
    by linarith
  from openRoutes_wellformed [OF this]
  have ok: "\<forall>perm \<in> set perms. perm \<noteq> [] \<and> distinct perm \<and> inRange cities perm"
    by (simp add: perms_def allCities_def)
  from bruteForceStepsLoop_rate_one
         [OF ok, of None "[]" Infinity 0 0 "[plainStep ''metadata_update'']"]
  obtain m' p' bp' c' s' acc'
    where l: "bruteForceLoop cities perms (Infinity, []) = Inr (m', p')"
      and g: "bruteForceStepsLoop cities 1 perms
                (Infinity, None, 0, 0, [plainStep ''metadata_update'']) =
              Inr (m', bp', c', s', acc')"
      and rel: "bp' = None \<and> p' = [] \<or> bp' = Some p' \<and> p' \<noteq> [] \<and> hd p' = last p'"
    by auto
  have b: "bruteForceTSP (Some cities) = Inr \<lparr>path = p', distance = m'\<rparr>"
    using assms l by (simp add: bruteForceTSP_def perms_def)
  from rel show ?thesis
  proof
    assume "bp' = None \<and> p' = []"
    with g have "generateBruteForceSteps cities 1 = Inl TypeError"
      by (simp add: generateBruteForceSteps_def perms_def [symmetric])
    with b \<open>bp' = None \<and> p' = []\<close> show ?thesis
      by simp
  next
    assume some: "bp' = Some p' \<and> p' \<noteq> [] \<and> hd p' = last p'"
    with g have "generateBruteForceSteps cities 1 =
                   Inr ((acc' @ [plainStep ''metadata_update'']) @ [finalResultStep p' m'])"
      by (simp add: generateBruteForceSteps_def perms_def [symmetric])
    with b show ?thesis
      by blast
  qed
qed

lemma bruteForceTSP_line4:
  "bruteForceTSP (Some (lineCities [0, 1, 2, 3])) =
     Inr \<lparr>path = [0, 1, 2, 3, 0], distance = Num 6\<rparr>"
  by (simp add: bruteForceTSP_def lineCities_4 upt_4 generatePermutations_4 evalDistance)

text \<open>
  C3. The bookkeeping of the best distance sits inside the sampling test, so it runs over
  the sampled permutations only. Four cities on a line at 0, 1, 2, 3 with sampling rate
  20: the generator evaluates the 20th permutation alone and ends with the route
  3, 0, 2, 1, 3 of distance 8, while \<open>bruteForceTSP\<close> returns distance 6.
\<close>

theorem generateBruteForceSteps_sampling_skips_optimum:
  "generateBruteForceSteps (lineCities [0, 1, 2, 3]) 20 =
     Inr [plainStep ''metadata_update'', plainStep ''best_found'',
          plainStep ''permutation_check'', plainStep ''metadata_update'',
          finalResultStep [3, 0, 2, 1, 3] (Num 8)] \<and>
   bruteForceTSP (Some (lineCities [0, 1, 2, 3])) =
     Inr \<lparr>path = [0, 1, 2, 3, 0], distance = Num 6\<rparr>"
proof -
  have "generateBruteForceSteps (lineCities [0, 1, 2, 3]) 20 =
     Inr [plainStep ''metadata_update'', plainStep ''best_found'',
          plainStep ''permutation_check'', plainStep ''metadata_update'',
          finalResultStep [3, 0, 2, 1, 3] (Num 8)]"
    by (simp add: generateBruteForceSteps_def lineCities_4 upt_4 generatePermutations_4
        evalDistance)
  with bruteForceTSP_line4 show ?thesis
    by (simp only: simp_thms)
qed

section \<open>Properties of 2-opt\<close>

lemma twoOptInner_accepted:
  "twoOptInner cities r best i ks = Inr (Some (nr, nd)) \<Longrightarrow>
   \<exists>k \<in> set ks. nr = perform2OptSwap r i k \<and>
     calculateTotalDistance (Some nr) cities = Inr nd \<and>
     jsLess nd (jsSub best (Num EPSILON))"
  by (induction ks) (auto simp: Let_def split: sum.splits if_splits)

lemma twoOptPass_accepted:
  "twoOptPass cities r best n is = Inr (Some (nr, nd)) \<Longrightarrow>
   \<exists>i \<in> set is. \<exists>k \<in> set [i + 1 ..< n]. nr = perform2OptSwap r i k \<and>
     calculateTotalDistance (Some nr) cities = Inr nd \<and>
     jsLess nd (jsSub best (Num EPSILON))"
proof (induction "is")
  case Nil
  then show ?case by simp
next
  case (Cons i "is")
  show ?case
  proof (cases "twoOptInner cities r best i [i + 1 ..< n]")
    case (Inl e)
    with Cons.prems show ?thesis by simp
  next
    case (Inr found)
    show ?thesis
    proof (cases found)
      case None
      with Inr Cons show ?thesis by auto
    next
      case (Some accepted)
      with Inr Cons.prems have "twoOptInner cities r best i [i + 1 ..< n] = Inr (Some (nr, nd))"
        by simp
      from twoOptInner_accepted [OF this] show ?thesis
        by auto
    qed
  qed
qed

lemma mset_perform2OptSwap: "i \<le> k \<Longrightarrow> mset (perform2OptSwap r i k) = mset r"
proof -
  assume "i \<le> k"
  then have "take i r = take i (take (k + 1) r)"
    by (simp add: min_def)
  then have a: "mset (take i r) + mset (drop i (take (k + 1) r)) = mset (take (k + 1) r)"
    by (metis append_take_drop_id mset_append)
  have b: "mset (take (k + 1) r) + mset (drop (k + 1) r) = mset r"
    by (metis append_take_drop_id mset_append)
  have "mset (perform2OptSwap r i k) =
        (mset (take i r) + mset (drop i (take (k + 1) r))) + mset (drop (k + 1) r)"
    by (simp add: perform2OptSwap_def Let_def)
  also have "\<dots> = mset (take (k + 1) r) + mset (drop (k + 1) r)"
    by (simp only: a)
  also have "\<dots> = mset r"
    by (rule b)
  finally show ?thesis .
qed

text \<open>
  What a pass accepts: a swap of the current route whose total distance is finite and,
  for a finite incumbent, more than \<open>EPSILON\<close> below it.
\<close>

lemma twoOptPass_accepted_finite:
  assumes "twoOptPass cities r best n is = Inr (Some (nr, nd))"
  shows "\<exists>x. nd = Num x \<and> 0 \<le> x \<and> (\<forall>b. best = Num b \<longrightarrow> x < b - EPSILON) \<and>
           calculateTotalDistance (Some nr) cities = Inr nd \<and> mset nr = mset r"
proof -
  from twoOptPass_accepted [OF assms] obtain i k
    where k: "k \<in> set [i + 1 ..< n]" and swap: "nr = perform2OptSwap r i k"
      and nd: "calculateTotalDistance (Some nr) cities = Inr nd"
        "jsLess nd (jsSub best (Num EPSILON))"
    by blast
  from k have "i \<le> k" by simp
  then have "mset nr = mset r"
    unfolding swap by (rule mset_perform2OptSwap)
  moreover from improves_finite [OF calculateTotalDistance_distanceValue [OF nd(1)] nd(2)]
  obtain x where "nd = Num x" "0 \<le> x" "\<forall>b. best = Num b \<longrightarrow> x < b - EPSILON"
    by blast
  ultimately show ?thesis
    using nd(1) by blast
qed

lemma twoOptWhile_stop:
  "twoOptPass cities r best n [1 ..< n - 1] = Inr None \<Longrightarrow>
   twoOptWhile cities n r best iters = Some (Inr (r, best, iters))"
  by (subst twoOptWhile.simps) (simp only: sum.case option.case)

lemma twoOptWhile_error:
  "twoOptPass cities r best n [1 ..< n - 1] = Inl e \<Longrightarrow>
   twoOptWhile cities n r best iters = Some (Inl e)"
  by (subst twoOptWhile.simps) (simp only: sum.case)

lemma twoOptWhile_continue:
  "twoOptPass cities r best n [1 ..< n - 1] = Inr (Some (nr, nd)) \<Longrightarrow>
   twoOptWhile cities n r best iters = twoOptWhile cities n nr nd (iters + 1)"
  by (subst twoOptWhile.simps) (simp only: sum.case option.case prod.case)

lemma floor_measure_less:
  assumes "0 \<le> nd" "nd < best - EPSILON"
  shows "nat \<lfloor>nd / EPSILON\<rfloor> < nat \<lfloor>best / EPSILON\<rfloor>"
proof -
  have "(nd + EPSILON) / EPSILON \<le> best / EPSILON"
    using assms(2) EPSILON_pos by (intro divide_right_mono) simp_all
  moreover have "(nd + EPSILON) / EPSILON = nd / EPSILON + 1"
    using EPSILON_pos by (simp add: add_divide_distrib)
  ultimately have "nd / EPSILON + 1 \<le> best / EPSILON"
    by simp
  then have "\<lfloor>nd / EPSILON\<rfloor> + 1 \<le> \<lfloor>best / EPSILON\<rfloor>"
    by linarith
  moreover have "0 \<le> \<lfloor>nd / EPSILON\<rfloor>"
    using assms(1) EPSILON_pos by simp
  ultimately show ?thesis
    by linarith
qed

text \<open>The loop returns: first from a finite incumbent, then from any incumbent.\<close>

lemma twoOptWhile_returns_finite:
  "\<exists>res. twoOptWhile cities n r (Num b) iters = Some res"
proof (induction "nat \<lfloor>b / EPSILON\<rfloor>" arbitrary: r b iters rule: less_induct)
  case less
  show ?case
  proof (cases "twoOptPass cities r (Num b) n [1 ..< n - 1]")
    case (Inl e)
    then show ?thesis
      by (simp add: twoOptWhile_error)
  next
    case (Inr found)
    show ?thesis
    proof (cases found)
      case None
      with Inr show ?thesis
        by (simp add: twoOptWhile_stop)
    next
      case (Some accepted)
      obtain nr nd where "accepted = (nr, nd)"
        by (cases accepted)
      with Inr Some have pass: "twoOptPass cities r (Num b) n [1 ..< n - 1] = Inr (Some (nr, nd))"
        by simp
      from twoOptPass_accepted_finite [OF pass] obtain x
        where x: "nd = Num x" "0 \<le> x" "x < b - EPSILON"
        by blast
      from less [OF floor_measure_less [OF x(2,3)], of nr "iters + 1"]
      show ?thesis
        by (simp add: twoOptWhile_continue [OF pass] x(1))
    qed
  qed
qed

lemma twoOptWhile_returns: "\<exists>res. twoOptWhile cities n r best iters = Some res"
proof (cases "twoOptPass cities r best n [1 ..< n - 1]")
  case (Inl e)
  then show ?thesis
    by (simp add: twoOptWhile_error)
next
  case (Inr found)
  show ?thesis
  proof (cases found)
    case None
    with Inr show ?thesis
      by (simp add: twoOptWhile_stop)
  next
    case (Some accepted)
    obtain nr nd where "accepted = (nr, nd)"
      by (cases accepted)
    with Inr Some have pass: "twoOptPass cities r best n [1 ..< n - 1] = Inr (Some (nr, nd))"
      by simp
    from twoOptPass_accepted_finite [OF pass] obtain x where "nd = Num x"
      by blast
    with twoOptWhile_returns_finite [of cities n nr x "iters + 1"] show ?thesis
      by (simp add: twoOptWhile_continue [OF pass])
  qed
qed

text \<open>What the loop returns, by induction over its unfoldings.\<close>

lemma twoOptWhile_post:
  assumes "twoOptWhile cities n r best iters = Some res"
  shows "\<forall>r' d' iters'. res = Inr (r', d', iters') \<longrightarrow>
      iters \<le> iters' \<and>
      (\<forall>b. best = Num b \<longrightarrow> (\<exists>y. d' = Num y \<and> y + real (iters' - iters) * EPSILON \<le> b)) \<and>
      mset r' = mset r \<and>
      (calculateTotalDistance (Some r) cities = Inr best \<longrightarrow>
       calculateTotalDistance (Some r') cities = Inr d')"
  using assms
proof (induction rule: twoOptWhile.raw_induct [rotated 1, consumes 1])
  case (1 loop cities n r best iters res)
  show ?case
  proof (cases "twoOptPass cities r best n [1 ..< n - 1]")
    case (Inl e)
    with "1.hyps" show ?thesis by auto
  next
    case (Inr found)
    show ?thesis
    proof (cases found)
      case None
      with Inr "1.hyps" show ?thesis by auto
    next
      case (Some accepted)
      obtain nr nd where "accepted = (nr, nd)"
        by (cases accepted)
      with Inr Some have pass: "twoOptPass cities r best n [1 ..< n - 1] = Inr (Some (nr, nd))"
        by simp
      with "1.hyps" have run: "loop cities n nr nd (iters + 1) = Some res"
        by simp
      from twoOptPass_accepted_finite [OF pass] obtain x
        where x: "nd = Num x" "0 \<le> x" "\<forall>b. best = Num b \<longrightarrow> x < b - EPSILON"
          and nd: "calculateTotalDistance (Some nr) cities = Inr nd" and m: "mset nr = mset r"
        by blast
      show ?thesis
      proof (intro allI impI)
        fix r' d' iters' assume res: "res = Inr (r', d', iters')"
        from "1.IH" [OF run] res x(1) nd obtain y
          where p: "iters + 1 \<le> iters'" "d' = Num y"
            "y + real (iters' - (iters + 1)) * EPSILON \<le> x" "mset r' = mset nr"
            "calculateTotalDistance (Some r') cities = Inr d'"
          by blast
        have k: "real (iters' - iters) = real (iters' - (iters + 1)) + 1"
          using p(1) by simp
        have "y + real (iters' - iters) * EPSILON \<le> b" if "best = Num b" for b
        proof -
          from x(3) that have "x < b - EPSILON" by blast
          moreover have "y + real (iters' - iters) * EPSILON \<le> x + EPSILON"
            using p(3) by (simp add: k algebra_simps)
          ultimately show ?thesis by linarith
        qed
        with p m show "iters \<le> iters' \<and>
          (\<forall>b. best = Num b \<longrightarrow> (\<exists>y. d' = Num y \<and> y + real (iters' - iters) * EPSILON \<le> b)) \<and>
          mset r' = mset r \<and>
          (calculateTotalDistance (Some r) cities = Inr best \<longrightarrow>
           calculateTotalDistance (Some r') cities = Inr d')"
          by simp
      qed
    qed
  qed
qed

lemma twoOpt_returns: "\<exists>res. twoOpt cities initialRoute = Some res"
proof -
  have "\<exists>res. (case twoOptWhile cs n r best 0 of
                  None \<Rightarrow> None
                | Some (Inl e) \<Rightarrow> Some (Inl e)
                | Some (Inr (r', d, iters)) \<Rightarrow>
                    Some (Inr \<lparr>route = closeRoute r', routeDistance = d, iterations = iters\<rparr>))
               = Some res" for cs n r best
  proof -
    from twoOptWhile_returns [of cs n r best 0] obtain res
      where "twoOptWhile cs n r best 0 = Some res" by blast
    then show ?thesis
      by (cases res) (auto split: prod.splits)
  qed
  then show ?thesis
    by (auto simp: twoOpt_def Let_def split: option.splits sum.splits)
qed

text \<open>
  C4. A swap that a pass of \<open>twoOpt\<close> accepts has a total distance below the incumbent
  distance minus \<open>EPSILON\<close>: the test the code makes holds, the accepted distance is
  finite, and below a finite incumbent \<open>b\<close> it is less than \<open>b - EPSILON\<close>. The \<open>while\<close>
  loop returns from every state: each accepted swap lowers the non-negative incumbent by
  more than \<open>EPSILON\<close>, so the result after \<open>k\<close> further swaps lies at least
  \<open>k * EPSILON\<close> below a finite distance at the start, and when the incumbent is the
  distance of the current route at the start it is the distance of the final route at
  the end. \<open>twoOpt\<close> returns for every city list and initial route.
\<close>

theorem twoOpt_swaps_decrease_and_terminate:
  "(twoOptPass cities r bestDistance n is = Inr (Some (newRoute, newDistance)) \<longrightarrow>
      calculateTotalDistance (Some newRoute) cities = Inr newDistance \<and>
      jsLess newDistance (jsSub bestDistance (Num EPSILON)) \<and>
      (\<exists>x. newDistance = Num x \<and> (\<forall>b. bestDistance = Num b \<longrightarrow> x < b - EPSILON))) \<and>
   (\<exists>res. twoOptWhile cities n r bestDistance iters = Some res \<and>
      (\<forall>r' d' iters'. res = Inr (r', d', iters') \<longrightarrow>
         iters \<le> iters' \<and>
         (\<forall>b. bestDistance = Num b \<longrightarrow>
            (\<exists>y. d' = Num y \<and> y + real (iters' - iters) * EPSILON \<le> b)) \<and>
         (calculateTotalDistance (Some r) cities = Inr bestDistance \<longrightarrow>
          calculateTotalDistance (Some r') cities = Inr d'))) \<and>
   (\<exists>res. twoOpt citiesOrNull initialRoute = Some res)"
proof (intro conjI impI)
  assume pass: "twoOptPass cities r bestDistance n is = Inr (Some (newRoute, newDistance))"
  from twoOptPass_accepted [OF pass]
  show "calculateTotalDistance (Some newRoute) cities = Inr newDistance"
    and "jsLess newDistance (jsSub bestDistance (Num EPSILON))"
    by auto
  from twoOptPass_accepted_finite [OF pass]
  show "\<exists>x. newDistance = Num x \<and> (\<forall>b. bestDistance = Num b \<longrightarrow> x < b - EPSILON)"
    by blast
next
  from twoOptWhile_returns [of cities n r bestDistance iters] obtain res
    where run: "twoOptWhile cities n r bestDistance iters = Some res"
    by blast
  from twoOptWhile_post [OF run] run
  show "\<exists>res. twoOptWhile cities n r bestDistance iters = Some res \<and>
      (\<forall>r' d' iters'. res = Inr (r', d', iters') \<longrightarrow>
         iters \<le> iters' \<and>
         (\<forall>b. bestDistance = Num b \<longrightarrow>
            (\<exists>y. d' = Num y \<and> y + real (iters' - iters) * EPSILON \<le> b)) \<and>
         (calculateTotalDistance (Some r) cities = Inr bestDistance \<longrightarrow>
          calculateTotalDistance (Some r') cities = Inr d'))"
    by blast
next
  show "\<exists>res. twoOpt citiesOrNull initialRoute = Some res"
    by (rule twoOpt_returns)
qed

lemma upt_1_3: "[1 ..< 3] = [1, 2]"
  by (simp add: upt_rec)

lemma twoOptPass_example:
  "twoOptPass (lineCities [0, 1, 2, 3]) [0, 2, 1, 3] (Num 8) 4 [1 ..< 3] =
     Inr (Some ([0, 1, 2, 3], Num 6))"
  by (simp add: upt_1_3 upt_rec lineCities_4 perform2OptSwap_def evalDistance)

lemma twoOpt_example:
  "twoOpt (Some (lineCities [0, 1, 2, 3])) (Some [0, 2, 1, 3]) =
     Some (Inr \<lparr>route = [0, 1, 2, 3, 0], routeDistance = Num 6, iterations = 1\<rparr>)"
  by (simp add: twoOpt_def twoOptWhile.simps upt_rec lineCities_4 perform2OptSwap_def
      evalDistance)

theorem twoOpt_swaps_decrease_and_terminate_witness:
  "twoOptPass (lineCities [0, 1, 2, 3]) [0, 2, 1, 3] (Num 8) 4 [1 ..< 3] =
     Inr (Some ([0, 1, 2, 3], Num 6)) \<and>
   calculateTotalDistance (Some [0, 1, 2, 3]) (lineCities [0, 1, 2, 3]) = Inr (Num 6) \<and>
   jsLess (Num 6) (jsSub (Num 8) (Num EPSILON)) \<and>
   twoOpt (Some (lineCities [0, 1, 2, 3])) (Some [0, 2, 1, 3]) =
     Some (Inr \<lparr>route = [0, 1, 2, 3, 0], routeDistance = Num 6, iterations = 1\<rparr>)"
proof -
  from twoOpt_swaps_decrease_and_terminate
         [of "lineCities [0, 1, 2, 3]" "[0, 2, 1, 3]" "Num 8" 4 "[1 ..< 3]" "[0, 1, 2, 3]"
             "Num 6"]
       twoOptPass_example
  have "calculateTotalDistance (Some [0, 1, 2, 3]) (lineCities [0, 1, 2, 3]) = Inr (Num 6) \<and>
        jsLess (Num 6) (jsSub (Num 8) (Num EPSILON))"
    by blast
  with twoOptPass_example twoOpt_example show ?thesis
    by (simp only: simp_thms)
qed

section \<open>Properties of the greedy algorithm and its step generator\<close>























lemma greedyTSP_line4:
  "greedyTSP (Some (lineCities [0, 1, 2, 3])) =
     Inr \<lparr>path = [0, 1, 2, 3, 0], distance = Num 6\<rparr>"
  by (simp add: greedyTSP_def lineCities_4 upt_rec markVisited_def evalDistance)





section \<open>The exhaustive search against the heuristics\<close>










end
